theory Spec2Isabelle
  imports Main
begin

section \<open>Python and torch primitives used by the engines\<close>

text \<open>
  Exceptions are values: every \<^verbatim>\<open>raise\<close>, failed \<^verbatim>\<open>assert\<close>, failed attribute
  access and out-of-range index of the source is a branch that returns one of these.
  Errors raised inside torch are \<open>RuntimeError\<close>, except a dimension or an index out of
  range, which is \<open>IndexError\<close>.
\<close>

datatype error = AssertionError | AttributeError | IndexError | RuntimeError

text \<open>
  Tensors of rank 0, 1 and 2 (the ranks of the scalars, biases and linear or embedding
  weights the engines touch). \<open>Mat c rows\<close> has shape \<open>[length rows, c]\<close>; the column
  count is stored so that a matrix without rows keeps its shape. Entries are of an
  arbitrary type: the engines only move them.
\<close>

datatype 'a tensor = Scalar 'a | Vec "'a list" | Mat nat "'a list list"

fun tensor_dim :: "'a tensor \<Rightarrow> nat" where
  "tensor_dim (Scalar x) = 0"
| "tensor_dim (Vec xs) = 1"
| "tensor_dim (Mat c rows) = 2"

fun tensor_size :: "'a tensor \<Rightarrow> nat list" where
  "tensor_size (Scalar x) = []"
| "tensor_size (Vec xs) = [length xs]"
| "tensor_size (Mat c rows) = [length rows, c]"

text \<open>The representation invariant: every row of a matrix has the stored width.\<close>

fun tensor_ok :: "'a tensor \<Rightarrow> bool" where
  "tensor_ok (Mat c rows) = list_all (\<lambda>row. length row = c) rows"
| "tensor_ok t = True"

text \<open>\<^verbatim>\<open>tensor.size()[i]\<close>: indexing the shape tuple raises IndexError out of range.\<close>

definition size_at :: "'a tensor \<Rightarrow> nat \<Rightarrow> error + nat" where
  "size_at t i = (if i < length (tensor_size t) then Inr (tensor_size t ! i) else Inl IndexError)"

text \<open>A dimension argument of torch, negative values counting from the last dimension.\<close>

definition wrap_dim :: "nat \<Rightarrow> int \<Rightarrow> error + nat" where
  "wrap_dim n d =
     (if 0 \<le> d \<and> d < int n then Inr (nat d)
      else if - int n \<le> d \<and> d < 0 then Inr (nat (d + int n))
      else Inl IndexError)"

text \<open>\<^verbatim>\<open>tensor.narrow(dim, start, length)\<close>, for a dimension the tensor has.\<close>

fun narrow :: "'a tensor \<Rightarrow> nat \<Rightarrow> nat \<Rightarrow> nat \<Rightarrow> 'a tensor" where
  "narrow (Scalar x) d s l = Scalar x"
| "narrow (Vec xs) d s l = Vec (take l (drop s xs))"
| "narrow (Mat c rows) d s l =
     (if d = 0 then Mat c (take l (drop s rows))
      else Mat l (map (\<lambda>row. take l (drop s row)) rows))"

text \<open>
  \<^verbatim>\<open>torch.chunk(tensor, chunks, dim)\<close> as torch documents and implements it: the chunk
  size is \<open>ceil(dim_size / chunks)\<close>; the tensor is split into consecutive pieces of
  that size, the last one shorter, so fewer than \<open>chunks\<close> pieces may come back; a
  dimension of size 0 gives \<open>chunks\<close> empty pieces. \<open>chunk_ranges\<close> lists the
  (start, length) of every piece.
\<close>

definition chunk_ranges :: "nat \<Rightarrow> nat \<Rightarrow> (nat \<times> nat) list" where
  "chunk_ranges dim_size chunks =
     (let split_size = (dim_size + chunks - 1) div chunks in
      if split_size = 0 then replicate chunks (0, 0)
      else map (\<lambda>i. (i * split_size, min split_size (dim_size - i * split_size)))
             [0..<max ((dim_size + split_size - 1) div split_size) 1])"

definition torch_chunk :: "'a tensor \<Rightarrow> int \<Rightarrow> int \<Rightarrow> error + 'a tensor list" where
  "torch_chunk t chunks d =
     (if tensor_dim t = 0 then Inl RuntimeError
      else if chunks \<le> 0 then Inl RuntimeError
      else case wrap_dim (tensor_dim t) d of
             Inl e \<Rightarrow> Inl e
           | Inr d' \<Rightarrow>
               Inr (map (\<lambda>(s, l). narrow t d' s l)
                      (chunk_ranges (tensor_size t ! d') (nat chunks))))"

text \<open>Indexing a Python tuple or list with a non-negative index.\<close>

definition py_index :: "'b list \<Rightarrow> nat \<Rightarrow> error + 'b" where
  "py_index xs i = (if i < length xs then Inr (xs ! i) else Inl IndexError)"

section \<open>VocabParallelEmbedding\<close>

text \<open>
  \<^verbatim>\<open>math.ceil(num_embeddings / world_size)\<close>. The source divides in floating point and
  rounds up; for the magnitudes of a vocabulary (below \<open>2^52\<close>) that is the exact
  ceiling of the quotient, which is what is modelled.
\<close>

definition ceil_div :: "int \<Rightarrow> nat \<Rightarrow> int" where
  "ceil_div n w = - ((- n) div int w)"

text \<open>
  The loop \<^verbatim>\<open>for i in range(1, len(indices)): indices[i] += indices[i - 1]\<close>, run in
  place from left to right.
\<close>

definition cumulative_summation :: "int list \<Rightarrow> int list" where
  "cumulative_summation indices =
     foldl (\<lambda>xs i. xs[i := xs ! i + xs ! (i - 1)]) indices [1..<length indices]"

text \<open>
  \<^verbatim>\<open>VocabParallelEmbedding._get_partitioned_vocab_range(world_size, rank)\<close>, with
  \<open>num_embeddings\<close> the attribute of the module it reads. With a world size of 0 the
  list is empty and \<^verbatim>\<open>indices[-1] = ...\<close> raises.
\<close>

definition get_partitioned_vocab_range :: "int \<Rightarrow> nat \<Rightarrow> nat \<Rightarrow> error + (int \<times> int)" where
  "get_partitioned_vocab_range num_embeddings world_size rank =
     (if world_size = 0 then Inl IndexError
      else
        let indices = replicate world_size (ceil_div num_embeddings world_size);
            indices = indices[world_size - 1 := num_embeddings - sum_list (butlast indices)];
            indices = 0 # indices;
            indices = cumulative_summation indices
        in if rank + 1 < length indices then Inr (indices ! rank, indices ! (rank + 1))
           else Inl IndexError)"

text \<open>
  Lines 122 to 125 of \<^verbatim>\<open>_parallelize_embedding\<close>: the table is chunked along
  dimension 0 into \<open>world_size\<close> pieces and the piece of this rank is taken.
\<close>

definition chunked_weight :: "'a tensor \<Rightarrow> nat \<Rightarrow> nat \<Rightarrow> error + 'a tensor" where
  "chunked_weight weight world_size gpu_index =
     (case torch_chunk weight (int world_size) 0 of
        Inl e \<Rightarrow> Inl e
      | Inr chunked_weights \<Rightarrow> py_index chunked_weights gpu_index)"

text \<open>
  The first lines of \<^verbatim>\<open>F.embedding\<close> of torch: a \<open>padding_idx\<close> that is given has to lie
  within the rows of the table it is passed with (\<^verbatim>\<open>assert padding_idx < weight.size(0)\<close>
  for a positive one, \<^verbatim>\<open>assert padding_idx >= -weight.size(0)\<close> for a negative one; 0 is
  not checked). The result is the error raised, if any.
\<close>

definition padding_idx_check :: "'a tensor \<Rightarrow> int option \<Rightarrow> error option" where
  "padding_idx_check weight padding_idx =
     (case padding_idx of
        None \<Rightarrow> None
      | Some p \<Rightarrow>
          if p > 0 then
            (case size_at weight 0 of
               Inl e \<Rightarrow> Some e
             | Inr n \<Rightarrow> if p < int n then None else Some AssertionError)
          else if p < 0 then
            (case size_at weight 0 of
               Inl e \<Rightarrow> Some e
             | Inr n \<Rightarrow> if p \<ge> - int n then None else Some AssertionError)
          else None)"

text \<open>
  \<^verbatim>\<open>F.embedding(input, weight, padding_idx, max_norm, ...)\<close> of torch: after the check
  of \<open>padding_idx\<close>, the rows of the table selected by the ids. The batch of ids is a flat
  list (the shape of the id tensor plays no part). An id outside the table raises; a table
  that is not a matrix raises. Past its check \<open>padding_idx\<close> only acts on gradients, as do
  \<open>scale_grad_by_freq\<close> and \<open>sparse\<close>, and \<open>max_norm\<close> is taken at its default \<open>None\<close>.
\<close>

definition F_embedding :: "int list \<Rightarrow> 'a tensor \<Rightarrow> int option \<Rightarrow> error + 'a tensor" where
  "F_embedding input weight padding_idx =
     (case padding_idx_check weight padding_idx of
        Some e \<Rightarrow> Inl e
      | None \<Rightarrow>
          (case weight of
             Mat c rows \<Rightarrow>
               if list_all (\<lambda>i. 0 \<le> i \<and> i < int (length rows)) input
               then Inr (Mat c (map (\<lambda>i. rows ! nat i) input))
               else Inl IndexError
           | _ \<Rightarrow> Inl RuntimeError))"

text \<open>
  The distribution context (mpu) is not part of the engines: they consume its rank and
  world size queries and its three collectives, which are taken as parameters here.
\<close>

record 'a mpu =
  get_tensor_parallel_world_size :: nat
  get_tensor_parallel_rank :: nat
  broadcast :: "'a tensor \<Rightarrow> 'a tensor"
  gather :: "'a tensor \<Rightarrow> 'a tensor"
  reduce :: "'a tensor \<Rightarrow> 'a tensor"

text \<open>The calls a forward pass makes to the collectives of the context, in order.\<close>

datatype 'a collective_call = Broadcast "'a tensor" | Gather "'a tensor" | Reduce "'a tensor"

text \<open>
  Lines 31 to 42 of \<^verbatim>\<open>VocabParallelEmbedding.forward\<close>: the mask of the ids outside the
  range of this rank, and the ids shifted by the start of the range with the masked ones
  set to 0. With a world size of 1 the ids are passed on as they are and no mask exists
  (the list of \<open>False\<close> stands for it and is not used).
\<close>

definition mask_inputs :: "nat \<Rightarrow> nat \<Rightarrow> int \<Rightarrow> int list \<Rightarrow> error + (bool list \<times> int list)" where
  "mask_inputs world_size rank num_embeddings inputs =
     (if world_size > 1 then
        case get_partitioned_vocab_range num_embeddings world_size rank of
          Inl e \<Rightarrow> Inl e
        | Inr (vocab_start_index, vocab_end_index) \<Rightarrow>
            let input_mask = map (\<lambda>i. i < vocab_start_index \<or> i \<ge> vocab_end_index) inputs;
                masked_input = map (\<lambda>i. i - vocab_start_index) inputs;
                masked_input = map2 (\<lambda>m i. if m then 0 else i) input_mask masked_input
            in Inr (input_mask, masked_input)
      else Inr (replicate (length inputs) False, inputs))"

text \<open>\<^verbatim>\<open>output_parallel[input_mask, :] = 0.0\<close>\<close>

fun zero_rows :: "bool list \<Rightarrow> 'a::zero tensor \<Rightarrow> 'a tensor" where
  "zero_rows input_mask (Mat c rows) =
     Mat c (map2 (\<lambda>m row. if m then replicate c 0 else row) input_mask rows)"
| "zero_rows input_mask t = t"

text \<open>
  Lines 29 to 55: the local output of one rank, before the reduce. \<open>weight\<close> and
  \<open>padding_idx\<close> are the attributes of the module as they are when forward runs: the
  engine has replaced the weight by the shard of the rank and has left \<open>padding_idx\<close>,
  which \<open>nn.Embedding\<close> keeps as \<open>None\<close> or as an index into the full table, as it was.
\<close>

definition output_parallel ::
  "nat \<Rightarrow> nat \<Rightarrow> int \<Rightarrow> 'a::zero tensor \<Rightarrow> int option \<Rightarrow> int list \<Rightarrow> error + 'a tensor" where
  "output_parallel world_size rank num_embeddings weight padding_idx inputs =
     (case mask_inputs world_size rank num_embeddings inputs of
        Inl e \<Rightarrow> Inl e
      | Inr (input_mask, masked_input) \<Rightarrow>
          (case F_embedding masked_input weight padding_idx of
             Inl e \<Rightarrow> Inl e
           | Inr out \<Rightarrow> Inr (if world_size > 1 then zero_rows input_mask out else out)))"

text \<open>
  \<^verbatim>\<open>VocabParallelEmbedding.forward(inputs)\<close>, given the attributes \<open>num_embeddings\<close>,
  \<open>weight\<close> and \<open>padding_idx\<close> of the module: the result, and the collectives called on
  the way.
\<close>

definition VocabParallelEmbedding_forward ::
  "'a::zero mpu \<Rightarrow> int \<Rightarrow> 'a tensor \<Rightarrow> int option \<Rightarrow> int list
     \<Rightarrow> (error + 'a tensor) \<times> 'a collective_call list" where
  "VocabParallelEmbedding_forward mpu num_embeddings weight padding_idx inputs =
     (case output_parallel (get_tensor_parallel_world_size mpu) (get_tensor_parallel_rank mpu)
             num_embeddings weight padding_idx inputs of
        Inl e \<Rightarrow> (Inl e, [])
      | Inr out \<Rightarrow> (Inr (reduce mpu out), [Reduce out]))"

text \<open>
  Modelled from the spec: the reduce of the distribution context, whose code is not in
  the sources ("reduce(tensor) -> tensor (summed across ranks)"): the entrywise sum of
  the tensors the ranks contribute, in rank order.
\<close>

fun tensor_add :: "'a::plus tensor \<Rightarrow> 'a tensor \<Rightarrow> 'a tensor" where
  "tensor_add (Mat c xs) (Mat c' ys) = Mat c (map2 (map2 (+)) xs ys)"
| "tensor_add (Vec xs) (Vec ys) = Vec (map2 (+) xs ys)"
| "tensor_add (Scalar x) (Scalar y) = Scalar (x + y)"
| "tensor_add t u = t"

fun reduce_sum :: "'a::plus tensor list \<Rightarrow> 'a tensor" where
  "reduce_sum [] = Vec []"
| "reduce_sum (t # ts) = foldl tensor_add t ts"

text \<open>
  A simulated group of \<open>W\<close> ranks, seen from rank \<open>r\<close>: \<open>peers q\<close> is what rank \<open>q\<close>
  contributes to the reduce. Broadcast and gather are not used by the embedding.
\<close>

definition simulated_reduce_mpu :: "nat \<Rightarrow> nat \<Rightarrow> (nat \<Rightarrow> 'a::plus tensor) \<Rightarrow> 'a mpu" where
  "simulated_reduce_mpu W r peers =
     \<lparr>get_tensor_parallel_world_size = W, get_tensor_parallel_rank = r,
      broadcast = (\<lambda>t. t), gather = (\<lambda>t. t),
      reduce = (\<lambda>t. reduce_sum (map (\<lambda>q. if q = r then t else peers q) [0..<W]))\<rparr>"

section \<open>Tensor operations of the engines\<close>

fun vec_elems :: "'a tensor \<Rightarrow> 'a list" where
  "vec_elems (Vec xs) = xs"
| "vec_elems t = []"

fun mat_rows :: "'a tensor \<Rightarrow> 'a list list" where
  "mat_rows (Mat c rows) = rows"
| "mat_rows t = []"

fun mat_cols :: "'a tensor \<Rightarrow> nat" where
  "mat_cols (Mat c rows) = c"
| "mat_cols t = 0"

text \<open>
  \<^verbatim>\<open>torch.cat(tensors, dim)\<close>: an empty list and tensors of rank 0 are refused; the
  tensors must have one rank and agree in every dimension but \<open>dim\<close>. (torch also
  accepts empty vectors among matrices, a case the engines never produce.)
\<close>

definition torch_cat :: "'a tensor list \<Rightarrow> int \<Rightarrow> error + 'a tensor" where
  "torch_cat tensors d =
     (case tensors of
        [] \<Rightarrow> Inl RuntimeError
      | Scalar x # ts \<Rightarrow> Inl RuntimeError
      | Vec xs # ts \<Rightarrow>
          if list_all (\<lambda>t. tensor_dim t = 1) tensors then
            (case wrap_dim 1 d of
               Inl e \<Rightarrow> Inl e
             | Inr d' \<Rightarrow> Inr (Vec (concat (map vec_elems tensors))))
          else Inl RuntimeError
      | Mat c rows # ts \<Rightarrow>
          if list_all (\<lambda>t. tensor_dim t = 2) tensors then
            (case wrap_dim 2 d of
               Inl e \<Rightarrow> Inl e
             | Inr d' \<Rightarrow>
                 if d' = 0 then
                   (if list_all (\<lambda>t. mat_cols t = c) tensors
                    then Inr (Mat c (concat (map mat_rows tensors)))
                    else Inl RuntimeError)
                 else
                   (if list_all (\<lambda>t. length (mat_rows t) = length rows) tensors
                    then Inr (Mat (sum_list (map mat_cols tensors))
                                (map (\<lambda>i. concat (map (\<lambda>t. mat_rows t ! i) tensors))
                                   [0..<length rows]))
                    else Inl RuntimeError))
          else Inl RuntimeError)"

text \<open>A list of results as the result of a list: the first error is the one raised.\<close>

fun sequence_results :: "(error + 'b) list \<Rightarrow> error + 'b list" where
  "sequence_results [] = Inr []"
| "sequence_results (Inl e # rs) = Inl e"
| "sequence_results (Inr x # rs) =
     (case sequence_results rs of Inl e \<Rightarrow> Inl e | Inr xs \<Rightarrow> Inr (x # xs))"

text \<open>Python's \<^verbatim>\<open>zip(*groups)\<close>: the tuples of the j-th elements, up to the shortest group.\<close>

definition zip_star :: "'b list list \<Rightarrow> 'b list list" where
  "zip_star groups =
     (if groups = [] then []
      else map (\<lambda>j. map (\<lambda>g. g ! j) groups) [0..<min_list (map length groups)])"

text \<open>
  \<^verbatim>\<open>TensorParallelEngine1D._deconstruct_combined_qkv(tensor, world_size)\<close>. The slice
  \<^verbatim>\<open>tensor[i * world_size : (i + 1) * world_size]\<close> takes \<open>world_size\<close> elements from
  position \<open>i * world_size\<close>. The concatenation is along the last dimension
  (\<^verbatim>\<open>dim=-1\<close>), whatever the dimension the tensor was chunked along. The context reports
  a world size of at least 1, so the division is defined.
\<close>

definition deconstruct_combined_qkv :: "'a tensor list \<Rightarrow> nat \<Rightarrow> error + 'a tensor list" where
  "deconstruct_combined_qkv tensor world_size =
     (let ranks = (length tensor + world_size - 1) div world_size;
          tensor = map (\<lambda>i. take world_size (drop (i * world_size) tensor)) [0..<ranks]
      in sequence_results (map (\<lambda>x. torch_cat x (- 1)) (zip_star tensor)))"

text \<open>
  Lines 63 to 66 of \<^verbatim>\<open>_slice\<close> (and 78 to 81, for the bias): chunk, regroup when the
  fusion degree is above 1, take the piece of this rank. \<^verbatim>\<open>.contiguous()\<close> changes the
  memory layout only.
\<close>

definition slice_data :: "'a tensor \<Rightarrow> int \<Rightarrow> nat \<Rightarrow> nat \<Rightarrow> int \<Rightarrow> error + 'a tensor" where
  "slice_data t fusion_degree world_size gpu_index d =
     (case torch_chunk t (fusion_degree * int world_size) d of
        Inl e \<Rightarrow> Inl e
      | Inr weight \<Rightarrow>
          (case (if fusion_degree > 1 then deconstruct_combined_qkv weight world_size
                 else Inr weight) of
             Inl e \<Rightarrow> Inl e
           | Inr weight \<Rightarrow> py_index weight gpu_index))"

section \<open>ColumnParallelLinear\<close>






section \<open>The model graph\<close>

text \<open>
  The class of a module. \<open>VocabParallelEmbedding\<close> derives from \<open>Embedding\<close>;
  \<open>Plain name\<close> is any other class (a linear layer, a norm, the model itself), none of
  which derives from \<open>Embedding\<close>.
\<close>

datatype module_class =
  Embedding | Plain string | VocabParallelEmbedding | ColumnParallelLinear | RowParallelLinear

definition isinstance_Embedding :: "module_class \<Rightarrow> bool" where
  "isinstance_Embedding c = (c = Embedding \<or> c = VocabParallelEmbedding)"

definition isinstance_VocabParallelEmbedding :: "module_class \<Rightarrow> bool" where
  "isinstance_VocabParallelEmbedding c = (c = VocabParallelEmbedding)"

text \<open>The value of the attribute \<open>mpu\<close> of a module: the context, or Python's \<open>None\<close>.\<close>

datatype mpu_ref = MpuNone | MpuContext

text \<open>
  A module, with the attributes the engines read or write. \<open>weight\<close> and \<open>bias\<close> are
  the addresses of parameter objects (\<open>None\<close>: the attribute is missing or holds
  \<open>None\<close>), so that two modules can share one parameter. \<open>attrs\<close> holds the
  integer attributes by name, among them the ones the mapping rescales and
  \<open>in_features\<close>, \<open>out_features\<close>, \<open>nx\<close>, \<open>nf\<close>, \<open>num_embeddings\<close> and
  \<open>fusion_degree\<close>. For the other attributes \<open>None\<close> means that the module has no such
  attribute.
\<close>

record pmodule =
  cls :: module_class
  weight :: "nat option"
  bias :: "nat option"
  attrs :: "string \<Rightarrow> int option"
  mpu_attr :: "mpu_ref option"
  reversed :: "bool option"
  gather_output :: "bool option"
  orig_module :: "module_class option"

text \<open>A parameter or buffer: its tensor, the shard rank recorded on it, its device.\<close>

record 'a parameter =
  data :: "'a tensor"
  tp_rank :: "nat option"
  is_cuda :: bool

text \<open>
  A model: the modules in the order of \<^verbatim>\<open>named_modules()\<close> (the model itself first,
  under the empty name), the store of its parameters and buffers by address, and the
  module \<^verbatim>\<open>get_input_embeddings()\<close> returns, by position (\<open>None\<close>: the model has no such
  method). The tree never changes shape, so positions and names are stable.
\<close>

record 'a model =
  named_modules :: "(string \<times> pmodule) list"
  parameters :: "nat \<Rightarrow> 'a parameter"
  get_input_embeddings :: "nat option"

text \<open>
  The mapping table is data of the caller, and the class that resolves names against it
  (\<open>TensorParallelMapping\<close>) is not in the sources: its answers are taken as
  parameters. The table is picked by the architecture of the model, which the engines
  never change, so the answers depend on the name (and, for the fusion degree, on the
  module) only.
\<close>

record tp_mapping =
  is_column_parallel :: "string \<Rightarrow> bool"
  is_row_parallel :: "string \<Rightarrow> bool"
  is_reversed_param :: "string \<Rightarrow> bool"
  get_combined_qkv_degree :: "string \<Rightarrow> pmodule \<Rightarrow> int"
  update_attrs :: "string list"

text \<open>
  Modelled from the spec: \<open>update_module_arguments(module, **kwargs)\<close>, whose code is not
  in the sources, sets each keyword as an attribute of the module ("arbitrary config
  integers are patched onto model submodules at runtime"). \<open>update_module i f\<close> applies the
  attribute updates \<open>f\<close> to the module at position \<open>i\<close>.
\<close>

definition module_at :: "'a model \<Rightarrow> nat \<Rightarrow> pmodule" where
  "module_at M i = snd (named_modules M ! i)"

definition update_module :: "nat \<Rightarrow> (pmodule \<Rightarrow> pmodule) \<Rightarrow> 'a model \<Rightarrow> 'a model" where
  "update_module i f M =
     M\<lparr>named_modules := (named_modules M)[i := (fst (named_modules M ! i), f (module_at M i))]\<rparr>"

text \<open>\<^verbatim>\<open>parameter.data = tensor\<close> and \<^verbatim>\<open>setattr(parameter, "tp_rank", rank)\<close>.\<close>

definition set_data :: "nat \<Rightarrow> 'a tensor \<Rightarrow> 'a model \<Rightarrow> 'a model" where
  "set_data p t M = M\<lparr>parameters := (parameters M)(p := (parameters M p)\<lparr>data := t\<rparr>)\<rparr>"

definition set_tp_rank :: "nat \<Rightarrow> nat \<Rightarrow> 'a model \<Rightarrow> 'a model" where
  "set_tp_rank p r M = M\<lparr>parameters := (parameters M)(p := (parameters M p)\<lparr>tp_rank := Some r\<rparr>)\<rparr>"

text \<open>
  A loop whose body can raise: the state is threaded through, and the first error stops
  the loop and is returned with the state as it is at that point.
\<close>

fun for_each :: "('b \<Rightarrow> 's \<Rightarrow> error option \<times> 's) \<Rightarrow> 'b list \<Rightarrow> 's \<Rightarrow> error option \<times> 's" where
  "for_each body [] s = (None, s)"
| "for_each body (x # xs) s =
     (case body x s of
        (Some e, s') \<Rightarrow> (Some e, s')
      | (None, s') \<Rightarrow> for_each body xs s')"

section \<open>TensorParallelEngine1D\<close>

text \<open>
  \<^verbatim>\<open>_update_mp_arguments\<close>: for every module and every name of the rescale list, an
  attribute of that name is divided by the world size (Python's floor division, which is
  \<open>div\<close> on \<open>int\<close>). The context reports a world size of at least 1.
\<close>

fun reduce_attrs :: "nat \<Rightarrow> string list \<Rightarrow> pmodule \<Rightarrow> pmodule" where
  "reduce_attrs world_size [] m = m"
| "reduce_attrs world_size (name # names) m =
     reduce_attrs world_size names
       (case attrs m name of
          None \<Rightarrow> m
        | Some h \<Rightarrow> m\<lparr>attrs := (attrs m)(name \<mapsto> h div int world_size)\<rparr>)"

definition update_mp_arguments :: "nat \<Rightarrow> tp_mapping \<Rightarrow> 'a model \<Rightarrow> 'a model" where
  "update_mp_arguments world_size tp M =
     M\<lparr>named_modules :=
         map (\<lambda>(name, m). (name, reduce_attrs world_size (update_attrs tp) m)) (named_modules M)\<rparr>"

text \<open>Lines 61 to 73 of \<^verbatim>\<open>_slice\<close>: the weight of the module at position \<open>i\<close>.\<close>

definition slice_weight :: "nat \<Rightarrow> nat \<Rightarrow> nat \<Rightarrow> int \<Rightarrow> int \<Rightarrow> 'a model \<Rightarrow> error option \<times> 'a model" where
  "slice_weight world_size gpu_index i fusion_degree d M =
     (case weight (module_at M i) of
        None \<Rightarrow> (None, M)
      | Some p \<Rightarrow>
          (case (if tensor_dim (data (parameters M p)) \<ge> 1
                 then (case slice_data (data (parameters M p)) fusion_degree world_size gpu_index d of
                         Inl e \<Rightarrow> (Some e, M)
                       | Inr t \<Rightarrow> (None, set_data p t M))
                 else (None, M)) of
             (Some e, M') \<Rightarrow> (Some e, M')
           | (None, M') \<Rightarrow>
               (let M'' = set_tp_rank p gpu_index M' in
                case size_at (data (parameters M'' p)) 0 of
                  Inl e \<Rightarrow> (Some e, M'')
                | Inr s0 \<Rightarrow>
                    (case size_at (data (parameters M'' p)) 1 of
                       Inl e \<Rightarrow> (Some e, M'')
                     | Inr s1 \<Rightarrow>
                         (None, update_module i
                                  (\<lambda>m. m\<lparr>attrs := (attrs m)(''in_features'' \<mapsto> int s0,
                                                               ''out_features'' \<mapsto> int s1)\<rparr>) M'')))))"

text \<open>Lines 75 to 83 of \<^verbatim>\<open>_slice\<close>: the bias, always chunked along dimension 0.\<close>

definition slice_bias :: "nat \<Rightarrow> nat \<Rightarrow> nat \<Rightarrow> int \<Rightarrow> bool \<Rightarrow> 'a model \<Rightarrow> error option \<times> 'a model" where
  "slice_bias world_size gpu_index i fusion_degree do_slice M =
     (case bias (module_at M i) of
        None \<Rightarrow> (None, M)
      | Some b \<Rightarrow>
          (case (if do_slice \<and> tensor_dim (data (parameters M b)) \<ge> 1
                 then (case slice_data (data (parameters M b)) fusion_degree world_size gpu_index 0 of
                         Inl e \<Rightarrow> (Some e, M)
                       | Inr t \<Rightarrow> (None, set_data b t M))
                 else (None, M)) of
             (Some e, M') \<Rightarrow> (Some e, M')
           | (None, M') \<Rightarrow> (None, set_tp_rank b gpu_index M')))"

text \<open>
  \<^verbatim>\<open>_slice(module, reversed, fusion_degree, slice_bias, dim)\<close> on the module at position
  \<open>i\<close>. \<^verbatim>\<open>copy.deepcopy\<close> of a class is the class.
\<close>

definition slice :: "nat \<Rightarrow> nat \<Rightarrow> nat \<Rightarrow> bool \<Rightarrow> int \<Rightarrow> bool \<Rightarrow> int \<Rightarrow> 'a model \<Rightarrow> error option \<times> 'a model" where
  "slice world_size gpu_index i rvs fusion_degree do_slice_bias d M =
     (let d = (if \<not> rvs then d else \<bar>d - 1\<bar>);
          M = update_module i
                (\<lambda>m. m\<lparr>mpu_attr := Some MpuContext, reversed := Some rvs,
                        attrs := (attrs m)(''fusion_degree'' \<mapsto> fusion_degree),
                        orig_module := Some (cls m), gather_output := Some False\<rparr>) M
      in case slice_weight world_size gpu_index i fusion_degree d M of
           (Some e, M') \<Rightarrow> (Some e, M')
         | (None, M') \<Rightarrow> slice_bias world_size gpu_index i fusion_degree do_slice_bias M')"

definition column_slice :: "nat \<Rightarrow> nat \<Rightarrow> nat \<Rightarrow> int \<Rightarrow> bool \<Rightarrow> 'a model \<Rightarrow> error option \<times> 'a model" where
  "column_slice world_size gpu_index i fusion_degree rvs M =
     slice world_size gpu_index i rvs fusion_degree True 0 M"

definition row_slice :: "nat \<Rightarrow> nat \<Rightarrow> nat \<Rightarrow> int \<Rightarrow> bool \<Rightarrow> 'a model \<Rightarrow> error option \<times> 'a model" where
  "row_slice world_size gpu_index i fusion_degree rvs M =
     slice world_size gpu_index i rvs fusion_degree False 1 M"

text \<open>
  The loop of \<^verbatim>\<open>_parallelize_embedding\<close> (lines 137 to 153) at one module: a module that
  is no embedding and whose weight is the parameter object of the input embedding.
\<close>

definition tie_module :: "tp_mapping \<Rightarrow> nat \<Rightarrow> nat \<Rightarrow> 'a model \<Rightarrow> 'a model" where
  "tie_module tp p i M =
     (let name = fst (named_modules M ! i); m = module_at M i in
      if weight m = Some p \<and> \<not> isinstance_Embedding (cls m)
         \<and> \<not> isinstance_VocabParallelEmbedding (cls m)
      then update_module i
             (\<lambda>m. m\<lparr>mpu_attr := Some MpuContext, reversed := Some (is_reversed_param tp name),
                     attrs := (attrs m)(''fusion_degree'' \<mapsto> 1),
                     orig_module := Some (cls m), gather_output := Some True,
                     cls := ColumnParallelLinear\<rparr>) M
      else M)"

text \<open>
  \<^verbatim>\<open>_parallelize_embedding\<close>. The assertion comes first; a model whose accessor returns
  a module without a weight fails at \<^verbatim>\<open>embedding.weight\<close>.
\<close>

definition parallelize_embedding :: "nat \<Rightarrow> nat \<Rightarrow> tp_mapping \<Rightarrow> 'a model \<Rightarrow> error option \<times> 'a model" where
  "parallelize_embedding world_size gpu_index tp M =
     (case get_input_embeddings M of
        None \<Rightarrow> (Some AssertionError, M)
      | Some embedding \<Rightarrow>
          (case (if embedding < length (named_modules M) then weight (module_at M embedding)
                 else None) of
             None \<Rightarrow> (Some AttributeError, M)
           | Some p \<Rightarrow>
               (case chunked_weight (data (parameters M p)) world_size gpu_index of
                  Inl e \<Rightarrow> (Some e, M)
                | Inr t \<Rightarrow>
                    (let M = set_data p t M;
                         M = set_tp_rank p gpu_index M;
                         M = update_module embedding
                               (\<lambda>m. m\<lparr>mpu_attr := Some MpuContext, orig_module := Some (cls m),
                                       cls := VocabParallelEmbedding\<rparr>) M
                     in (None, foldl (\<lambda>M i. tie_module tp p i M) M
                                 [0..<length (named_modules M)])))))"

text \<open>The body of the loop of \<^verbatim>\<open>_parallelize_modules\<close>, at the module at position \<open>i\<close>.\<close>

definition parallelize_module :: "nat \<Rightarrow> nat \<Rightarrow> tp_mapping \<Rightarrow> nat \<Rightarrow> 'a model \<Rightarrow> error option \<times> 'a model" where
  "parallelize_module world_size gpu_index tp i M =
     (let param_name = fst (named_modules M ! i); m = module_at M i in
      if is_column_parallel tp param_name then
        (case column_slice world_size gpu_index i (get_combined_qkv_degree tp param_name m)
                (is_reversed_param tp param_name) M of
           (Some e, M') \<Rightarrow> (Some e, M')
         | (None, M') \<Rightarrow> (None, update_module i (\<lambda>m. m\<lparr>cls := ColumnParallelLinear\<rparr>) M'))
      else if is_row_parallel tp param_name then
        (case row_slice world_size gpu_index i 1 (is_reversed_param tp param_name) M of
           (Some e, M') \<Rightarrow> (Some e, M')
         | (None, M') \<Rightarrow> (None, update_module i (\<lambda>m. m\<lparr>cls := RowParallelLinear\<rparr>) M'))
      else (None, M))"

definition parallelize_modules :: "nat \<Rightarrow> nat \<Rightarrow> tp_mapping \<Rightarrow> 'a model \<Rightarrow> error option \<times> 'a model" where
  "parallelize_modules world_size gpu_index tp M =
     for_each (parallelize_module world_size gpu_index tp) [0..<length (named_modules M)] M"

text \<open>\<^verbatim>\<open>_postprocess\<close>: every parameter and buffer that is not on the device gets the rank.\<close>

definition postprocess :: "nat \<Rightarrow> 'a model \<Rightarrow> 'a model" where
  "postprocess gpu_index M =
     M\<lparr>parameters :=
         (\<lambda>p. if is_cuda (parameters M p) then parameters M p
              else (parameters M p)\<lparr>tp_rank := Some gpu_index\<rparr>)\<rparr>"

text \<open>
  \<^verbatim>\<open>TensorParallelEngine1D.parallelize()\<close> on one rank: the error raised, if any, and the
  model as the call leaves it. The last line sets \<open>mpu\<close> on the model itself, the first
  of its modules.
\<close>

definition parallelize :: "nat \<Rightarrow> nat \<Rightarrow> tp_mapping \<Rightarrow> 'a model \<Rightarrow> error option \<times> 'a model" where
  "parallelize world_size gpu_index tp M =
     (let M = update_mp_arguments world_size tp M in
      case parallelize_embedding world_size gpu_index tp M of
        (Some e, M') \<Rightarrow> (Some e, M')
      | (None, M') \<Rightarrow>
          (case parallelize_modules world_size gpu_index tp M' of
             (Some e, M'') \<Rightarrow> (Some e, M'')
           | (None, M'') \<Rightarrow>
               (None, update_module 0 (\<lambda>m. m\<lparr>mpu_attr := Some MpuContext\<rparr>)
                        (postprocess gpu_index M''))))"

section \<open>TensorDeparallelEngine1D\<close>

text \<open>
  \<^verbatim>\<open>TensorDeparallelEngine1D._update_mp_arguments\<close>: the same loops, multiplying by the
  world size.
\<close>

fun expand_attrs :: "nat \<Rightarrow> string list \<Rightarrow> pmodule \<Rightarrow> pmodule" where
  "expand_attrs world_size [] m = m"
| "expand_attrs world_size (name # names) m =
     expand_attrs world_size names
       (case attrs m name of
          None \<Rightarrow> m
        | Some h \<Rightarrow> m\<lparr>attrs := (attrs m)(name \<mapsto> h * int world_size)\<rparr>)"

definition deparallel_update_mp_arguments :: "nat \<Rightarrow> tp_mapping \<Rightarrow> 'a model \<Rightarrow> 'a model" where
  "deparallel_update_mp_arguments world_size tp M =
     M\<lparr>named_modules :=
         map (\<lambda>(name, m). (name, expand_attrs world_size (update_attrs tp) m)) (named_modules M)\<rparr>"

text \<open>
  \<^verbatim>\<open>_reconstruct_combined_qkv(tensors, fusion_degree, dim)\<close>: every gathered tensor is
  chunked into \<open>fusion_degree\<close> pieces, the i-th pieces are collected in the order of the
  tensors and joined, and the joined slots are joined in turn. A chunking never yields
  more than \<open>fusion_degree\<close> pieces, so the dictionary is never missed; a slot that got no
  piece makes \<open>torch.cat\<close> raise.
\<close>

definition reconstruct_combined_qkv :: "'a tensor list \<Rightarrow> int \<Rightarrow> int \<Rightarrow> error + 'a tensor" where
  "reconstruct_combined_qkv tensors fusion_degree d =
     (case sequence_results (map (\<lambda>tensor. torch_chunk tensor fusion_degree d) tensors) of
        Inl e \<Rightarrow> Inl e
      | Inr chunks \<Rightarrow>
          (case sequence_results
                  (map (\<lambda>i. torch_cat (map (\<lambda>cs. cs ! i) (filter (\<lambda>cs. i < length cs) chunks)) d)
                     [0..<nat fusion_degree]) of
             Inl e \<Rightarrow> Inl e
           | Inr result_tensors \<Rightarrow> torch_cat result_tensors d))"

text \<open>
  The collectives of deparallelize run on all ranks at once. The state of the group is
  the list of the models of the ranks, in rank order. In a step that gathers, every rank
  contributes a tensor and continues with the list of all contributions
  (\<open>torch.distributed.all_gather\<close>, which fills the list in rank order). The ranks have
  to issue the same collectives with tensors of one shape: a group whose ranks disagree
  fails or hangs, which is an error here. A step in which no rank gathers changes
  nothing.
\<close>

definition same_shape :: "'a tensor \<Rightarrow> 'a tensor \<Rightarrow> bool" where
  "same_shape t u = (tensor_dim t = tensor_dim u \<and> tensor_size t = tensor_size u)"

definition all_gather_step ::
  "('s \<Rightarrow> error + 'a tensor option) \<Rightarrow> ('a tensor list \<Rightarrow> 's \<Rightarrow> error + 's) \<Rightarrow> 's list \<Rightarrow> error + 's list" where
  "all_gather_step contribution continue states =
     (case sequence_results (map contribution states) of
        Inl e \<Rightarrow> Inl e
      | Inr cs \<Rightarrow>
          if list_all (\<lambda>c. c = None) cs then Inr states
          else if list_all (\<lambda>c. c \<noteq> None) cs
                  \<and> list_all (\<lambda>c. same_shape (the c) (the (hd cs))) cs
          then sequence_results (map (continue (map the cs)) states)
          else Inl RuntimeError)"

text \<open>A step every rank takes on its own.\<close>

definition local_step :: "('s \<Rightarrow> error + 's) \<Rightarrow> 's list \<Rightarrow> error + 's list" where
  "local_step f states = sequence_results (map f states)"

text \<open>\<^verbatim>\<open>parameter.data = parameter.cuda()\<close>: the values stay, the device changes.\<close>

definition set_cuda :: "nat \<Rightarrow> 'a model \<Rightarrow> 'a model" where
  "set_cuda p M = M\<lparr>parameters := (parameters M)(p := (parameters M p)\<lparr>is_cuda := True\<rparr>)\<rparr>"

text \<open>
  Whether \<^verbatim>\<open>_deparallelize_modules\<close> merges the module at position \<open>i\<close>, and along which
  dimension before the reversed flag: 0 for a column module (\<^verbatim>\<open>_column_merge\<close>), 1 for a
  row module (\<^verbatim>\<open>_row_merge\<close>); the column rule is tried first.
\<close>

definition merge_dim :: "tp_mapping \<Rightarrow> 'a model \<Rightarrow> nat \<Rightarrow> int option" where
  "merge_dim tp M i =
     (let param_name = fst (named_modules M ! i) in
      if is_column_parallel tp param_name then Some 0
      else if is_row_parallel tp param_name then Some 1
      else None)"

text \<open>
  The start of a merge on one rank: the arguments \<^verbatim>\<open>module.fusion_degree\<close> and
  \<^verbatim>\<open>module.reversed\<close> are read (a module that was never sliced has neither), and line
  231 sets \<open>mpu\<close> to \<open>None\<close>.
\<close>

definition merge_begin :: "tp_mapping \<Rightarrow> nat \<Rightarrow> 'a model \<Rightarrow> error + 'a model" where
  "merge_begin tp i M =
     (case merge_dim tp M i of
        None \<Rightarrow> Inr M
      | Some d \<Rightarrow>
          (case (attrs (module_at M i) ''fusion_degree'', reversed (module_at M i)) of
             (Some fusion_degree, Some rvs) \<Rightarrow>
               Inr (update_module i (\<lambda>m. m\<lparr>mpu_attr := Some MpuNone\<rparr>) M)
           | _ \<Rightarrow> Inl AttributeError))"

text \<open>Lines 233 to 248 of \<^verbatim>\<open>_merge\<close>: the weight a rank hands to \<open>all_gather\<close>, if it does.\<close>

definition merge_weight_contribution :: "tp_mapping \<Rightarrow> nat \<Rightarrow> 'a model \<Rightarrow> error + 'a tensor option" where
  "merge_weight_contribution tp i M =
     (case merge_dim tp M i of
        None \<Rightarrow> Inr None
      | Some d \<Rightarrow>
          (case weight (module_at M i) of
             None \<Rightarrow> Inr None
           | Some p \<Rightarrow>
               if tensor_dim (data (parameters M p)) \<ge> 1 then Inr (Some (data (parameters M p)))
               else Inr None))"

text \<open>Lines 250 to 264: the gathered weights are joined and the feature counts recomputed.\<close>

definition merge_weight_continue :: "tp_mapping \<Rightarrow> nat \<Rightarrow> 'a tensor list \<Rightarrow> 'a model \<Rightarrow> error + 'a model" where
  "merge_weight_continue tp i tensor_list M =
     (case (merge_dim tp M i, weight (module_at M i),
            attrs (module_at M i) ''fusion_degree'', reversed (module_at M i)) of
        (Some d, Some p, Some fusion_degree, Some rvs) \<Rightarrow>
          (let d = (if \<not> rvs then d else \<bar>d - 1\<bar>) in
           case (if fusion_degree > 1 then reconstruct_combined_qkv tensor_list fusion_degree d
                 else torch_cat tensor_list d) of
             Inl e \<Rightarrow> Inl e
           | Inr output \<Rightarrow>
               (let M = set_data p output (set_cuda p M) in
                case size_at (data (parameters M p)) 0 of
                  Inl e \<Rightarrow> Inl e
                | Inr s0 \<Rightarrow>
                    (case size_at (data (parameters M p)) 1 of
                       Inl e \<Rightarrow> Inl e
                     | Inr s1 \<Rightarrow>
                         Inr (update_module i
                                (\<lambda>m. m\<lparr>attrs := (attrs m)(''in_features'' \<mapsto> int s0,
                                                             ''out_features'' \<mapsto> int s1,
                                                             ''nx'' \<mapsto> int s0,
                                                             ''nf'' \<mapsto> int s1)\<rparr>) M))))
      | _ \<Rightarrow> Inl AttributeError)"

text \<open>Lines 266 to 279: the bias, merged by \<^verbatim>\<open>_column_merge\<close> only.\<close>

definition merge_bias_contribution :: "tp_mapping \<Rightarrow> nat \<Rightarrow> 'a model \<Rightarrow> error + 'a tensor option" where
  "merge_bias_contribution tp i M =
     (case merge_dim tp M i of
        None \<Rightarrow> Inr None
      | Some d \<Rightarrow>
          (case bias (module_at M i) of
             None \<Rightarrow> Inr None
           | Some b \<Rightarrow>
               if d = 0 \<and> tensor_dim (data (parameters M b)) \<ge> 1
               then Inr (Some (data (parameters M b)))
               else Inr None))"

text \<open>Lines 281 to 288.\<close>

definition merge_bias_continue :: "tp_mapping \<Rightarrow> nat \<Rightarrow> 'a tensor list \<Rightarrow> 'a model \<Rightarrow> error + 'a model" where
  "merge_bias_continue tp i tensor_list M =
     (case (bias (module_at M i), attrs (module_at M i) ''fusion_degree'') of
        (Some b, Some fusion_degree) \<Rightarrow>
          (case (if fusion_degree > 1 then reconstruct_combined_qkv tensor_list fusion_degree 0
                 else torch_cat tensor_list 0) of
             Inl e \<Rightarrow> Inl e
           | Inr output \<Rightarrow> Inr (set_data b output (set_cuda b M)))
      | _ \<Rightarrow> Inl AttributeError)"

text \<open>The end of \<^verbatim>\<open>_column_merge\<close> and \<^verbatim>\<open>_row_merge\<close>: the original class comes back.\<close>

definition restore_class :: "pmodule \<Rightarrow> pmodule" where
  "restore_class m = (case orig_module m of None \<Rightarrow> m | Some c \<Rightarrow> m\<lparr>cls := c\<rparr>)"

definition merge_end :: "tp_mapping \<Rightarrow> nat \<Rightarrow> 'a model \<Rightarrow> error + 'a model" where
  "merge_end tp i M =
     (case merge_dim tp M i of
        None \<Rightarrow> Inr M
      | Some d \<Rightarrow> Inr (update_module i restore_class M))"

text \<open>
  One turn of the loop of \<^verbatim>\<open>_deparallelize_modules\<close>, on all ranks: the module at
  position \<open>i\<close> is merged.
\<close>

definition then_step :: "(error + 's) \<Rightarrow> ('s \<Rightarrow> error + 's) \<Rightarrow> error + 's" where
  "then_step r f = (case r of Inl e \<Rightarrow> Inl e | Inr s \<Rightarrow> f s)"

definition merge_module_all :: "tp_mapping \<Rightarrow> nat \<Rightarrow> 'a model list \<Rightarrow> error + 'a model list" where
  "merge_module_all tp i Ms =
     then_step (then_step (then_step (local_step (merge_begin tp i) Ms)
       (all_gather_step (merge_weight_contribution tp i) (merge_weight_continue tp i)))
       (all_gather_step (merge_bias_contribution tp i) (merge_bias_continue tp i)))
       (local_step (merge_end tp i))"

fun deparallelize_modules_all :: "tp_mapping \<Rightarrow> nat list \<Rightarrow> 'a model list \<Rightarrow> error + 'a model list" where
  "deparallelize_modules_all tp [] Ms = Inr Ms"
| "deparallelize_modules_all tp (i # is) Ms =
     then_step (merge_module_all tp i Ms) (deparallelize_modules_all tp is)"

text \<open>
  \<^verbatim>\<open>_deparallelize_embedding\<close>. The embedding weight of every rank is gathered.
  Modelled from the spec: \<open>mpu._gather(tensor, dim=0)\<close>, whose code is not in the sources,
  is "a plain all-gather + concatenate along the vocabulary dimension".
\<close>

definition embedding_contribution :: "'a model \<Rightarrow> error + 'a tensor option" where
  "embedding_contribution M =
     (case get_input_embeddings M of
        None \<Rightarrow> Inl AttributeError
      | Some embedding \<Rightarrow>
          (case (if embedding < length (named_modules M) then weight (module_at M embedding)
                 else None) of
             None \<Rightarrow> Inl AttributeError
           | Some p \<Rightarrow> Inr (Some (data (parameters M p)))))"

text \<open>Lines 348 to 364 at one module: a module tied to the embedding weight.\<close>

definition untie_module :: "nat \<Rightarrow> nat \<Rightarrow> nat \<Rightarrow> 'a model \<Rightarrow> error + 'a model" where
  "untie_module embedding p i M =
     (let m = module_at M i in
      if weight m = Some p \<and> \<not> isinstance_Embedding (cls m)
         \<and> \<not> isinstance_VocabParallelEmbedding (cls m)
      then (case attrs (module_at M embedding) ''num_embeddings'' of
              None \<Rightarrow> Inl AttributeError
            | Some n \<Rightarrow>
                Inr (update_module i
                       (\<lambda>m. restore_class
                               (m\<lparr>mpu_attr := Some MpuNone,
                                  attrs := (attrs m)(''out_features'' \<mapsto> n)\<rparr>)) M))
      else Inr M)"

fun untie_modules :: "nat \<Rightarrow> nat \<Rightarrow> nat list \<Rightarrow> 'a model \<Rightarrow> error + 'a model" where
  "untie_modules embedding p [] M = Inr M"
| "untie_modules embedding p (i # is) M =
     then_step (untie_module embedding p i M) (untie_modules embedding p is)"

definition embedding_continue :: "'a tensor list \<Rightarrow> 'a model \<Rightarrow> error + 'a model" where
  "embedding_continue tensor_list M =
     (case get_input_embeddings M of
        None \<Rightarrow> Inl AttributeError
      | Some embedding \<Rightarrow>
          (case weight (module_at M embedding) of
             None \<Rightarrow> Inl AttributeError
           | Some p \<Rightarrow>
               (case torch_cat tensor_list 0 of
                  Inl e \<Rightarrow> Inl e
                | Inr gathered_weight \<Rightarrow>
                    (let M = set_data p gathered_weight (set_cuda p M) in
                     case size_at (data (parameters M p)) 0 of
                       Inl e \<Rightarrow> Inl e
                     | Inr s0 \<Rightarrow>
                         (let M = update_module embedding
                                    (\<lambda>m. restore_class
                                            (m\<lparr>mpu_attr := Some MpuNone,
                                               attrs := (attrs m)(''num_embeddings'' \<mapsto> int s0)\<rparr>)) M
                          in untie_modules embedding p [0..<length (named_modules M)] M)))))"

text \<open>
  \<^verbatim>\<open>TensorDeparallelEngine1D.deparallelize()\<close>, run by all ranks of the group at once (the
  list holds the model of every rank, in rank order; all ranks hold the same modules).
\<close>

definition deparallelize_all :: "nat \<Rightarrow> tp_mapping \<Rightarrow> 'a model list \<Rightarrow> error + 'a model list" where
  "deparallelize_all world_size tp Ms =
     (if length Ms \<noteq> world_size
         \<or> \<not> list_all (\<lambda>M. length (named_modules M) = length (named_modules (hd Ms))) Ms
      then Inl RuntimeError
      else
        then_step (then_step (then_step
          (Inr (map (deparallel_update_mp_arguments world_size tp) Ms))
          (all_gather_step embedding_contribution embedding_continue))
          (deparallelize_modules_all tp [0..<length (named_modules (hd Ms))]))
          (local_step (\<lambda>M. Inr (update_module 0 (\<lambda>m. m\<lparr>mpu_attr := Some MpuNone\<rparr>) M))))"

section \<open>Notions for the round trip\<close>

text \<open>A tensor and a dimension it has: vectors along 0, matrices along 0 or 1.\<close>

fun has_dim :: "'a tensor \<Rightarrow> nat \<Rightarrow> bool" where
  "has_dim (Scalar x) d = False"
| "has_dim (Vec xs) d = (d = 0)"
| "has_dim (Mat c rows) d = (d = 0 \<or> d = 1)"

text \<open>
  The tensor made of the \<open>n\<close> pieces of length \<open>k\<close> of \<open>t\<close> that start at the offsets
  \<open>ofs 0, ..., ofs (n - 1)\<close> along dimension \<open>d\<close>, joined along \<open>d\<close>.
\<close>

fun pieces_at :: "'a tensor \<Rightarrow> nat \<Rightarrow> (nat \<Rightarrow> nat) \<Rightarrow> nat \<Rightarrow> nat \<Rightarrow> 'a tensor" where
  "pieces_at (Scalar x) d ofs k n = Scalar x"
| "pieces_at (Vec xs) d ofs k n = Vec (concat (map (\<lambda>j. take k (drop (ofs j) xs)) [0..<n]))"
| "pieces_at (Mat c rows) d ofs k n =
     (if d = 0 then Mat c (concat (map (\<lambda>j. take k (drop (ofs j) rows)) [0..<n]))
      else Mat (n * k) (map (\<lambda>row. concat (map (\<lambda>j. take k (drop (ofs j) row)) [0..<n])) rows))"

text \<open>
  A tensor that the engines slice and merge back: it is well formed, has the slicing
  dimension, its size along it is a multiple of \<open>fusion_degree * world_size\<close>, and a
  fused tensor is sliced along its last dimension (the one \<open>_deconstruct_combined_qkv\<close>
  joins along).
\<close>

definition slices_evenly :: "'a tensor \<Rightarrow> int \<Rightarrow> nat \<Rightarrow> nat \<Rightarrow> bool" where
  "slices_evenly t fusion_degree world_size d =
     (tensor_ok t \<and> has_dim t d \<and> 1 \<le> fusion_degree
      \<and> (fusion_degree = 1 \<or> Suc d = tensor_dim t)
      \<and> (nat fusion_degree * world_size) dvd (tensor_size t ! d))"

text \<open>
  The shard of rank \<open>r\<close>: with \<open>k\<close> the length of one of the
  \<open>fusion_degree * world_size\<close> chunks, the chunks \<open>r\<close>, \<open>world_size + r\<close>,
  \<open>2 * world_size + r\<close>, ... joined.
\<close>

definition shard_of :: "'a tensor \<Rightarrow> int \<Rightarrow> nat \<Rightarrow> nat \<Rightarrow> nat \<Rightarrow> 'a tensor" where
  "shard_of t fusion_degree world_size d r =
     (let k = (tensor_size t ! d) div (nat fusion_degree * world_size)
      in pieces_at t d (\<lambda>j. (j * world_size + r) * k) k (nat fusion_degree))"

text \<open>
  What parallelize slices, as a list of (address, fusion degree, dimension): the input
  embedding's weight, then for every module in order the weight and the bias of a column
  module and the weight of a row module. The fusion degree of a column module is asked
  of the mapping when the module is reached, with its integers already rescaled.
\<close>

definition embedding_entries :: "'a model \<Rightarrow> (nat \<times> int \<times> nat) list" where
  "embedding_entries M =
     (case get_input_embeddings M of
        None \<Rightarrow> []
      | Some e \<Rightarrow> (case weight (module_at M e) of None \<Rightarrow> [] | Some p \<Rightarrow> [(p, 1, 0)]))"

definition module_entries :: "nat \<Rightarrow> tp_mapping \<Rightarrow> 'a model \<Rightarrow> nat \<Rightarrow> (nat \<times> int \<times> nat) list" where
  "module_entries W tp M i =
     (let name = fst (named_modules M ! i); m = module_at M i in
      if is_column_parallel tp name then
        (let F = get_combined_qkv_degree tp name (reduce_attrs W (update_attrs tp) m) in
         (case weight m of
            None \<Rightarrow> []
          | Some p \<Rightarrow> [(p, F, if is_reversed_param tp name then 1 else 0)])
         @ (case bias m of None \<Rightarrow> [] | Some b \<Rightarrow> [(b, F, 0)]))
      else if is_row_parallel tp name then
        (case weight m of
           None \<Rightarrow> []
         | Some p \<Rightarrow> [(p, 1, if is_reversed_param tp name then 0 else 1)])
      else [])"

definition slicing_plan :: "nat \<Rightarrow> tp_mapping \<Rightarrow> 'a model \<Rightarrow> (nat \<times> int \<times> nat) list" where
  "slicing_plan W tp M =
     embedding_entries M @ concat (map (module_entries W tp M) [0..<length (named_modules M)])"

text \<open>The integer attributes the engines themselves write.\<close>

definition engine_attributes :: "string list" where
  "engine_attributes =
     [''fusion_degree'', ''in_features'', ''out_features'', ''nx'', ''nf'', ''num_embeddings'']"

text \<open>
  The models and mappings for which the round trip is proved: the model has the
  embedding accessor and the embedding a weight; no parameter is sliced twice (so no
  module tied to the embedding is matched by the mapping); every sliced tensor slices
  evenly; the weight of a column or row module is a matrix; the rescale list names each
  attribute once and none that the engines write; and every integer it names is a
  multiple of the world size.
\<close>

definition round_trip_ready :: "nat \<Rightarrow> tp_mapping \<Rightarrow> 'a model \<Rightarrow> bool" where
  "round_trip_ready W tp M =
     (0 < W
      \<and> (case get_input_embeddings M of None \<Rightarrow> False | Some e \<Rightarrow> e < length (named_modules M))
      \<and> embedding_entries M \<noteq> []
      \<and> distinct (map fst (slicing_plan W tp M))
      \<and> list_all (\<lambda>(p, F, d). slices_evenly (data (parameters M p)) F W d) (slicing_plan W tp M)
      \<and> list_all (\<lambda>i. case weight (module_at M i) of
                         None \<Rightarrow> True
                       | Some p \<Rightarrow> merge_dim tp M i = None \<or> tensor_dim (data (parameters M p)) = 2)
           [0..<length (named_modules M)]
      \<and> distinct (update_attrs tp)
      \<and> list_all (\<lambda>a. a \<notin> set engine_attributes) (update_attrs tp)
      \<and> list_all (\<lambda>(name, m). list_all (\<lambda>a. case attrs m a of None \<Rightarrow> True | Some h \<Rightarrow> int W dvd h)
                                 (update_attrs tp))
           (named_modules M))"

text \<open>The frame of a model: its module names, parameter references and accessor.\<close>

definition same_frame :: "'a model \<Rightarrow> 'a model \<Rightarrow> bool" where
  "same_frame M M' =
     (length (named_modules M') = length (named_modules M)
      \<and> get_input_embeddings M' = get_input_embeddings M
      \<and> (\<forall>j<length (named_modules M).
            fst (named_modules M' ! j) = fst (named_modules M ! j)
            \<and> weight (module_at M' j) = weight (module_at M j)
            \<and> bias (module_at M' j) = bias (module_at M j)))"

text \<open>The tensors of rank r when the entries of the plan L are sliced and nothing else.\<close>

definition sharded_by :: "nat \<Rightarrow> nat \<Rightarrow> 'a model \<Rightarrow> (nat \<times> int \<times> nat) list \<Rightarrow> 'a model \<Rightarrow> bool" where
  "sharded_by W r M L M' =
     (\<forall>p. data (parameters M' p) =
            (case map_of L p of
               None \<Rightarrow> data (parameters M p)
             | Some (F, d) \<Rightarrow> shard_of (data (parameters M p)) F W d r))"

text \<open>
  The fusion degree a module is sliced with: what the mapping answers for a column module
  when \<^verbatim>\<open>_parallelize_modules\<close> reaches it (its integers are rescaled by then), 1 for a row
  module.
\<close>

definition fusion_of :: "nat \<Rightarrow> tp_mapping \<Rightarrow> 'a model \<Rightarrow> nat \<Rightarrow> int" where
  "fusion_of W tp M j =
     (let name = fst (named_modules M ! j) in
      if is_column_parallel tp name
      then get_combined_qkv_degree tp name (reduce_attrs W (update_attrs tp) (module_at M j))
      else 1)"

text \<open>
  The loop of \<^verbatim>\<open>_parallelize_modules\<close> on rank \<open>r\<close> before the module at position \<open>k\<close>: the
  frame is that of the original model \<open>M\<close>, the integers the engines do not write are the
  rescaled ones, the matched modules from \<open>k\<close> on are untouched, the ones before \<open>k\<close>
  carry the arguments of their slicing, and the tensors sliced so far are the embedding
  weight and the entries of the modules before \<open>k\<close>.
\<close>

definition par_inv :: "nat \<Rightarrow> nat \<Rightarrow> tp_mapping \<Rightarrow> 'a model \<Rightarrow> nat \<Rightarrow> 'a model \<Rightarrow> bool" where
  "par_inv W r tp M k cur =
     (same_frame M cur
      \<and> (\<forall>j<length (named_modules M). \<forall>a. a \<notin> set engine_attributes \<longrightarrow>
            attrs (module_at cur j) a = attrs (reduce_attrs W (update_attrs tp) (module_at M j)) a)
      \<and> (\<forall>j<length (named_modules M). k \<le> j \<and> merge_dim tp M j \<noteq> None \<longrightarrow>
            module_at cur j = reduce_attrs W (update_attrs tp) (module_at M j))
      \<and> (\<forall>j<k. merge_dim tp M j \<noteq> None \<longrightarrow>
            attrs (module_at cur j) ''fusion_degree'' = Some (fusion_of W tp M j)
            \<and> reversed (module_at cur j) = Some (is_reversed_param tp (fst (named_modules M ! j))))
      \<and> sharded_by W r M (embedding_entries M @ concat (map (module_entries W tp M) [0..<k])) cur)"

text \<open>What a step at module k may change of the modules.\<close>

definition touches_only :: "nat \<Rightarrow> string list \<Rightarrow> 'a model \<Rightarrow> 'a model \<Rightarrow> bool" where
  "touches_only k names M M' =
     (same_frame M M'
      \<and> (\<forall>j. j \<noteq> k \<longrightarrow> module_at M' j = module_at M j)
      \<and> (\<forall>a. a \<notin> set names \<longrightarrow> attrs (module_at M' k) a = attrs (module_at M k) a))"

text \<open>What parallelize leaves on rank r.\<close>

definition parallelized :: "nat \<Rightarrow> nat \<Rightarrow> tp_mapping \<Rightarrow> 'a model \<Rightarrow> 'a model \<Rightarrow> bool" where
  "parallelized W r tp M cur =
     (same_frame M cur
      \<and> (\<forall>j<length (named_modules M). \<forall>a. a \<notin> set engine_attributes \<longrightarrow>
            attrs (module_at cur j) a = attrs (reduce_attrs W (update_attrs tp) (module_at M j)) a)
      \<and> (\<forall>j<length (named_modules M). merge_dim tp M j \<noteq> None \<longrightarrow>
            attrs (module_at cur j) ''fusion_degree'' = Some (fusion_of W tp M j)
            \<and> reversed (module_at cur j) = Some (is_reversed_param tp (fst (named_modules M ! j))))
      \<and> sharded_by W r M (slicing_plan W tp M) cur)"

text \<open>What the steps of deparallelize keep of a model.\<close>

definition keeps :: "'a model \<Rightarrow> 'a model \<Rightarrow> bool" where
  "keeps M M' =
     (same_frame M M'
      \<and> (\<forall>j a. a \<notin> set engine_attributes \<longrightarrow> attrs (module_at M' j) a = attrs (module_at M j) a)
      \<and> (\<forall>j. attrs (module_at M' j) ''fusion_degree'' = attrs (module_at M j) ''fusion_degree''
              \<and> reversed (module_at M' j) = reversed (module_at M j)))"

text \<open>
  Rank r in the middle of deparallelize: the integers are back, the modules the mapping
  matches carry the arguments of their slicing, and the entries of L are still sharded.
\<close>

definition rank_state ::
  "nat \<Rightarrow> nat \<Rightarrow> tp_mapping \<Rightarrow> 'a model \<Rightarrow> (nat \<times> int \<times> nat) list \<Rightarrow> 'a model \<Rightarrow> bool" where
  "rank_state W r tp M L cur =
     (same_frame M cur
      \<and> (\<forall>j<length (named_modules M). \<forall>a. a \<notin> set engine_attributes \<longrightarrow>
            attrs (module_at cur j) a = attrs (module_at M j) a)
      \<and> (\<forall>j<length (named_modules M). merge_dim tp M j \<noteq> None \<longrightarrow>
            attrs (module_at cur j) ''fusion_degree'' = Some (fusion_of W tp M j)
            \<and> reversed (module_at cur j) = Some (is_reversed_param tp (fst (named_modules M ! j))))
      \<and> sharded_by W r M L cur)"

text \<open>All ranks of the group, in rank order.\<close>

definition group_state ::
  "nat \<Rightarrow> tp_mapping \<Rightarrow> 'a model \<Rightarrow> (nat \<times> int \<times> nat) list \<Rightarrow> 'a model list \<Rightarrow> bool" where
  "group_state W tp M L Ms = (length Ms = W \<and> (\<forall>r<W. rank_state W r tp M L (Ms ! r)))"

text \<open>A step at module i leaves the names and the other modules alone.\<close>

definition others_kept :: "nat \<Rightarrow> 'a model \<Rightarrow> 'a model \<Rightarrow> bool" where
  "others_kept i M M' =
     (length (named_modules M') = length (named_modules M)
      \<and> (\<forall>j<length (named_modules M). fst (named_modules M' ! j) = fst (named_modules M ! j))
      \<and> (\<forall>j. j \<noteq> i \<longrightarrow> module_at M' j = module_at M j))"

section \<open>Example inputs\<close>

text \<open>A module as torch builds it, before any engine has touched it.\<close>

definition plain_module ::
  "module_class \<Rightarrow> nat option \<Rightarrow> nat option \<Rightarrow> (string \<Rightarrow> int option) \<Rightarrow> pmodule" where
  "plain_module c w b a =
     \<lparr>cls = c, weight = w, bias = b, attrs = a, mpu_attr = None, reversed = None,
      gather_output = None, orig_module = None\<rparr>"

text \<open>
  A mapping whose only column-parallel module is \<open>fc\<close>, not reversed and not fused, and
  which rescales \<open>num_heads\<close>.
\<close>

definition example_mapping :: tp_mapping where
  "example_mapping =
     \<lparr>is_column_parallel = (\<lambda>name. name = ''fc''), is_row_parallel = (\<lambda>name. False),
      is_reversed_param = (\<lambda>name. False), get_combined_qkv_degree = (\<lambda>name m. 1),
      update_attrs = [''num_heads'']\<rparr>"

text \<open>
  A model without \<^verbatim>\<open>get_input_embeddings\<close>: the model itself, with 3 heads, and a
  linear layer \<open>fc\<close> of 2 input and 8 output features (weight of shape [8, 2], as
  \<open>nn.Linear\<close> stores it, and a bias of 8 entries).
\<close>

definition example_model :: "int model" where
  "example_model =
     \<lparr>named_modules =
        [('''', plain_module (Plain ''Model'') None None [''num_heads'' \<mapsto> 3]),
         (''fc'', plain_module (Plain ''Linear'') (Some 0) (Some 1)
                    [''in_features'' \<mapsto> 2, ''out_features'' \<mapsto> 8])],
      parameters =
        (\<lambda>p. \<lparr>data = (if p = 0
                       then Mat 2 [[0, 1], [2, 3], [4, 5], [6, 7], [8, 9], [10, 11], [12, 13], [14, 15]]
                       else Vec [0, 1, 2, 3, 4, 5, 6, 7]),
              tp_rank = None, is_cuda = False\<rparr>),
      get_input_embeddings = None\<rparr>"

text \<open>
  The weight of three fused projections of 4 output and 4 input features, of shape
  [12, 4]: row \<open>i\<close> holds \<open>4 i, ..., 4 i + 3\<close>.
\<close>

definition fused_weight :: "int tensor" where
  "fused_weight =
     Mat 4 [[0, 1, 2, 3], [4, 5, 6, 7], [8, 9, 10, 11], [12, 13, 14, 15],
            [16, 17, 18, 19], [20, 21, 22, 23], [24, 25, 26, 27], [28, 29, 30, 31],
            [32, 33, 34, 35], [36, 37, 38, 39], [40, 41, 42, 43], [44, 45, 46, 47]]"

text \<open>
  A mapping for a transformer block: \<open>attn\<close> is a fused projection of three heads' worth
  of columns stored input-major (reversed, as \<open>Conv1D\<close> stores it), \<open>fc\<close> is column
  parallel, \<open>proj\<close> is row parallel, and \<open>num_heads\<close> is rescaled.
\<close>

definition block_mapping :: tp_mapping where
  "block_mapping =
     \<lparr>is_column_parallel = (\<lambda>name. name = ''attn'' \<or> name = ''fc''),
      is_row_parallel = (\<lambda>name. name = ''proj''),
      is_reversed_param = (\<lambda>name. name = ''attn''),
      get_combined_qkv_degree = (\<lambda>name m. if name = ''attn'' then 3 else 1),
      update_attrs = [''num_heads'']\<rparr>"

text \<open>
  A model with the embedding accessor: an embedding \<open>wte\<close> of 4 rows, the fused
  projection \<open>attn\<close> (weight of shape [2, 12], bias of 12 entries), the linear layers
  \<open>fc\<close> (weight [4, 2], bias 4) and \<open>proj\<close> (weight [2, 4], bias 2), and the number of
  heads on the model itself.
\<close>

definition block_model :: "int \<Rightarrow> int model" where
  "block_model num_heads =
     \<lparr>named_modules =
        [('''', plain_module (Plain ''Model'') None None [''num_heads'' \<mapsto> num_heads]),
         (''wte'', plain_module Embedding (Some 0) None [''num_embeddings'' \<mapsto> 4]),
         (''attn'', plain_module (Plain ''Conv1D'') (Some 1) (Some 2) [''nx'' \<mapsto> 2, ''nf'' \<mapsto> 12]),
         (''fc'', plain_module (Plain ''Linear'') (Some 3) (Some 4)
                    [''in_features'' \<mapsto> 2, ''out_features'' \<mapsto> 4]),
         (''proj'', plain_module (Plain ''Linear'') (Some 5) (Some 6)
                    [''in_features'' \<mapsto> 4, ''out_features'' \<mapsto> 2])],
      parameters =
        (\<lambda>p. \<lparr>data =
                 (if p = 0 then Mat 2 [[0, 1], [2, 3], [4, 5], [6, 7]]
                  else if p = 1 then Mat 12 [[0, 1, 2, 3, 4, 5, 6, 7, 8, 9, 10, 11],
                                             [12, 13, 14, 15, 16, 17, 18, 19, 20, 21, 22, 23]]
                  else if p = 2 then Vec [0, 1, 2, 3, 4, 5, 6, 7, 8, 9, 10, 11]
                  else if p = 3 then Mat 2 [[0, 1], [2, 3], [4, 5], [6, 7]]
                  else if p = 4 then Vec [0, 1, 2, 3]
                  else if p = 5 then Mat 4 [[0, 1, 2, 3], [4, 5, 6, 7]]
                  else Vec [0, 1]),
               tp_rank = None, is_cuda = False\<rparr>),
      get_input_embeddings = Some 1\<rparr>"

text \<open>The smallest model with the accessor: the model itself and an embedding of 2 rows.\<close>

definition embedding_only_model :: "int \<Rightarrow> int model" where
  "embedding_only_model num_heads =
     \<lparr>named_modules =
        [('''', plain_module (Plain ''Model'') None None [''num_heads'' \<mapsto> num_heads]),
         (''wte'', plain_module Embedding (Some 0) None [''num_embeddings'' \<mapsto> 2])],
      parameters = (\<lambda>p. \<lparr>data = Mat 1 [[10], [20]], tp_rank = None, is_cuda = False\<rparr>),
      get_input_embeddings = Some 1\<rparr>"



section \<open>Properties\<close>

lemma length_chunk_ranges_pos:
  assumes "0 < n" "0 < w"
  shows "length (chunk_ranges n w) = (n + ((n + w - 1) div w) - 1) div ((n + w - 1) div w)"
proof -
  let ?k = "(n + w - 1) div w"
  have "w \<le> n + w - 1" using assms by simp
  then have k: "0 < ?k" using assms by (simp add: div_greater_zero_iff)
  then have "?k \<le> n + ?k - 1" using assms by simp
  then have "0 < (n + ?k - 1) div ?k" using k by (simp add: div_greater_zero_iff)
  then show ?thesis using k by (simp add: chunk_ranges_def Let_def max_def)
qed

subsection \<open>Arithmetic of the ceiling\<close>

lemma ceil_int:
  fixes n w :: int
  assumes "0 < w"
  shows "- ((- n) div w) = (n + w - 1) div w"
proof (cases "n mod w = 0")
  case True
  then obtain q where q: "n = q * w" by (metis mod_eq_0_iff_dvd dvd_def mult.commute)
  have "(q * w + (w - 1)) div w = q + (w - 1) div w" using assms by (simp add: div_mult_self3)
  moreover have "q * w + (w - 1) = n + w - 1" using q by simp
  moreover have "(w - 1) div w = 0" using assms by (simp add: div_pos_pos_trivial)
  ultimately have "(n + w - 1) div w = q" by simp
  moreover have "(- n) div w = - q"
  proof -
    have "- n = (- q) * w" using q by simp
    moreover have "w \<noteq> 0" using assms by simp
    ultimately show ?thesis by (metis nonzero_mult_div_cancel_right)
  qed
  ultimately show ?thesis by simp
next
  case False
  have a: "(- n) div w = - (n div w) - 1" using False assms by (simp add: zdiv_zminus1_eq_if)
  have b: "n + w - 1 = (n div w + 1) * w + (n mod w - 1)" by (simp add: algebra_simps)
  have "0 \<le> n mod w" "n mod w < w" using assms by simp_all
  then have c: "0 \<le> n mod w - 1" "n mod w - 1 < w" using False by linarith+
  have "(n + w - 1) div w = n div w + 1"
    using b c by (metis div_mult_self3 div_pos_pos_trivial add.right_neutral assms less_irrefl)
  then show ?thesis using a by simp
qed

lemma ceil_div_nat: "0 < w \<Longrightarrow> ceil_div (int n) w = int ((n + w - 1) div w)"
proof -
  assume w: "0 < w"
  have "int ((n + w - 1) div w) = (int n + int w - 1) div int w"
    using w by (simp add: zdiv_int of_nat_diff)
  then show ?thesis unfolding ceil_div_def using w ceil_int[of "int w" "int n"] by simp
qed

subsection \<open>The cumulative summation\<close>

lemma cumsum_aux:
  fixes xs :: "int list"
  shows "n \<le> length xs \<Longrightarrow>
   length (foldl (\<lambda>xs i. xs[i := xs ! i + xs ! (i - 1)]) xs [1..<n]) = length xs \<and>
   (\<forall>i<length xs. foldl (\<lambda>xs i. xs[i := xs ! i + xs ! (i - 1)]) xs [1..<n] ! i
       = (if i < n then sum_list (take (Suc i) xs) else xs ! i))"
proof (induction n)
  case 0
  then show ?case by simp
next
  case (Suc n)
  let ?f = "\<lambda>xs i. xs[i := xs ! i + xs ! (i - 1)]"
  show ?case
  proof (cases "n = 0")
    case True
    have "\<And>i. i < length xs \<Longrightarrow> i < Suc 0 \<Longrightarrow> sum_list (take (Suc i) xs) = xs ! i"
      by (simp add: take_Suc_conv_app_nth)
    then show ?thesis using True by simp
  next
    case False
    then have up: "[1..<Suc n] = [1..<n] @ [n]" by auto
    let ?ys = "foldl ?f xs [1..<n]"
    have ih: "length ?ys = length xs"
      "\<And>i. i < length xs \<Longrightarrow> ?ys ! i = (if i < n then sum_list (take (Suc i) xs) else xs ! i)"
      using Suc by simp_all
    have step: "foldl ?f xs [1..<Suc n] = ?ys[n := ?ys ! n + ?ys ! (n - 1)]"
      unfolding up by simp
    have n: "n < length xs" "n - 1 < length xs" "n - 1 < n" "Suc (n - 1) = n"
      using Suc.prems False by simp_all
    have at_n: "?ys ! n + ?ys ! (n - 1) = sum_list (take (Suc n) xs)"
      using ih(2)[OF n(1)] ih(2)[OF n(2)] n by (simp add: take_Suc_conv_app_nth)
    show ?thesis
      unfolding step using ih at_n n(1)
      by (auto simp: nth_list_update less_Suc_eq)
  qed
qed

lemma cumulative_summation_nth:
  "i < length xs \<Longrightarrow> cumulative_summation xs ! i = sum_list (take (Suc i) xs)"
  using cumsum_aux[of "length xs" xs] by (simp add: cumulative_summation_def)

lemma length_cumulative_summation: "length (cumulative_summation xs) = length xs"
  using cumsum_aux[of "length xs" xs] by (simp add: cumulative_summation_def)

subsection \<open>The vocabulary ranges\<close>

lemma replicate_update_last:
  "0 < w \<Longrightarrow> (replicate w c)[w - 1 := x] = replicate (w - 1) c @ [x]"
  by (cases w) (simp_all add: replicate_append_same[symmetric] list_update_append)

lemma vocab_range_closed_form:
  assumes "0 < W" "r < W"
  shows "get_partitioned_vocab_range V W r =
           Inr (int r * ceil_div V W, if r + 1 < W then (int r + 1) * ceil_div V W else V)"
proof -
  let ?c = "ceil_div V W"
  let ?last = "V - sum_list (butlast (replicate W ?c))"
  let ?xs = "0 # (replicate (W - 1) ?c @ [?last])"
  have bl: "sum_list (butlast (replicate W ?c)) = (int W - 1) * ?c"
    using assms(1) by (simp add: sum_list_replicate of_nat_diff butlast_conv_take)
  have len: "length ?xs = W + 1" using assms(1) by simp
  have pre: "\<And>i. i < W \<Longrightarrow> sum_list (take (Suc i) ?xs) = int i * ?c"
    by (auto simp: sum_list_replicate min_def)
  have s0: "cumulative_summation ?xs ! r = int r * ?c"
    using cumulative_summation_nth[of r ?xs] pre[of r] assms len by simp
  have s1: "cumulative_summation ?xs ! (r + 1) = (if r + 1 < W then (int r + 1) * ?c else V)"
  proof (cases "r + 1 < W")
    case True
    then show ?thesis using cumulative_summation_nth[of "r + 1" ?xs] pre[of "r + 1"] len by simp
  next
    case False
    then have rw: "r + 1 = W" using assms by simp
    have "take (Suc W) ?xs = ?xs" using len by simp
    then have "sum_list (take (Suc W) ?xs) = V" using bl assms(1)
      by (simp add: sum_list_replicate of_nat_diff algebra_simps)
    then show ?thesis using cumulative_summation_nth[of W ?xs] len rw by simp
  qed
  show ?thesis
    unfolding get_partitioned_vocab_range_def Let_def
    using assms s0 s1 replicate_update_last[of W ?c ?last]
    by (simp add: length_cumulative_summation)
qed

lemma ceil_div_pos: "0 < W \<Longrightarrow> 1 \<le> V \<Longrightarrow> 1 \<le> ceil_div V W"
proof -
  assume a: "0 < W" "1 \<le> V"
  have "ceil_div V W = (V + int W - 1) div int W"
    unfolding ceil_div_def using a ceil_int[of "int W" V] by simp
  moreover have "int W div int W \<le> (V + int W - 1) div int W"
    using a by (intro zdiv_mono1) simp_all
  ultimately show ?thesis using a by simp
qed

text \<open>
  C4 (as amended). For a world size \<open>W \<ge> 1\<close> and a vocabulary of \<open>V \<ge> 1\<close> rows,
  \<open>_get_partitioned_vocab_range\<close> returns for every rank a range \<open>[start r, stop r)\<close>; the
  first starts at 0, the last stops at \<open>V\<close>, each range but the last stops where the next
  starts and has size \<open>ceil(V / W)\<close>, and no id lies in two ranges. The ranges cover
  \<open>[0, V)\<close> exactly if and only if \<open>(W - 1) * ceil(V / W) \<le> V\<close>; otherwise the last range
  has a negative size and the one before it reaches past \<open>V\<close>.
\<close>

theorem vocab_ranges_partition:
  assumes "1 \<le> W" and "1 \<le> V"
  shows "\<exists>start stop.
     (\<forall>r<W. get_partitioned_vocab_range V W r = Inr (start r, stop r)) \<and>
     start 0 = 0 \<and> stop (W - 1) = V \<and>
     (\<forall>r. r + 1 < W \<longrightarrow> stop r = start (r + 1) \<and> stop r - start r = ceil_div V W) \<and>
     (\<forall>r<W. \<forall>q<W. \<forall>i. start r \<le> i \<and> i < stop r \<and> start q \<le> i \<and> i < stop q \<longrightarrow> r = q) \<and>
     ((\<forall>i. (\<exists>r<W. start r \<le> i \<and> i < stop r) \<longleftrightarrow> (0 \<le> i \<and> i < V))
        \<longleftrightarrow> (int W - 1) * ceil_div V W \<le> V)"
proof -
  define c where "c = ceil_div V W"
  define start where "start = (\<lambda>r. int r * c)"
  define stop where "stop = (\<lambda>r. if r + 1 < W then (int r + 1) * c else V)"
  have c1: "1 \<le> c" unfolding c_def using assms ceil_div_pos by simp
  have W: "0 < W" using assms by simp
  have ranges: "\<forall>r<W. get_partitioned_vocab_range V W r = Inr (start r, stop r)"
    using vocab_range_closed_form[OF W] by (simp add: start_def stop_def c_def)
  have first: "start 0 = 0" by (simp add: start_def)
  have last: "stop (W - 1) = V" using W by (simp add: stop_def)
  have contiguous: "\<forall>r. r + 1 < W \<longrightarrow> stop r = start (r + 1) \<and> stop r - start r = c"
    by (simp add: start_def stop_def algebra_simps)
  have mono: "\<And>r q. r < q \<Longrightarrow> (int r + 1) * c \<le> int q * c"
    using c1 by (intro mult_right_mono) simp_all
  have disj_aux: "\<And>r q i. r < q \<Longrightarrow> q < W \<Longrightarrow> start r \<le> i \<Longrightarrow> i < stop r \<Longrightarrow> start q \<le> i \<Longrightarrow> False"
  proof -
    fix r q :: nat and i :: int
    assume a: "r < q" "q < W" "start r \<le> i" "i < stop r" "start q \<le> i"
    then have "stop r = (int r + 1) * c" by (simp add: stop_def)
    then have "i < int q * c" using a(4) mono[OF a(1)] by simp
    then show False using a(5) by (simp add: start_def)
  qed
  have disjoint: "\<forall>r<W. \<forall>q<W. \<forall>i. start r \<le> i \<and> i < stop r \<and> start q \<le> i \<and> i < stop q \<longrightarrow> r = q"
  proof (intro allI impI)
    fix r q i
    assume a: "r < W" "q < W" "start r \<le> i \<and> i < stop r \<and> start q \<le> i \<and> i < stop q"
    show "r = q"
    proof (rule ccontr)
      assume "r \<noteq> q"
      then consider "r < q" | "q < r" by linarith
      then show False using a disj_aux[of r q i] disj_aux[of q r i] by cases auto
    qed
  qed
  have cover: "(\<forall>i. (\<exists>r<W. start r \<le> i \<and> i < stop r) \<longleftrightarrow> (0 \<le> i \<and> i < V))
        \<longleftrightarrow> (int W - 1) * c \<le> V"
  proof
    assume cov: "\<forall>i. (\<exists>r<W. start r \<le> i \<and> i < stop r) \<longleftrightarrow> (0 \<le> i \<and> i < V)"
    show "(int W - 1) * c \<le> V"
    proof (cases "W = 1")
      case True
      then show ?thesis using assms by simp
    next
      case False
      then have W2: "2 \<le> W" using W by simp
      let ?i = "(int W - 1) * c - 1"
      let ?r = "W - 2"
      have "start ?r = (int W - 2) * c" using W2 by (simp add: start_def of_nat_diff)
      moreover have "(int W - 2) * c + c = (int W - 1) * c" by (simp add: algebra_simps)
      ultimately have s: "start ?r \<le> ?i" using c1 by linarith
      have "Suc (W - 2) < W" using W2 by simp
      then have "stop ?r = (int W - 1) * c" using W2 by (simp add: stop_def of_nat_diff)
      then have e: "?i < stop ?r" by simp
      have "?r < W" using W2 by simp
      then have "\<exists>r<W. start r \<le> ?i \<and> ?i < stop r" using s e by blast
      then have "?i < V" using cov by blast
      then show ?thesis by simp
    qed
  next
    assume le: "(int W - 1) * c \<le> V"
    show "\<forall>i. (\<exists>r<W. start r \<le> i \<and> i < stop r) \<longleftrightarrow> (0 \<le> i \<and> i < V)"
    proof (intro allI iffI)
      fix i
      assume "\<exists>r<W. start r \<le> i \<and> i < stop r"
      then obtain r where r: "r < W" "start r \<le> i" "i < stop r" by blast
      have "0 \<le> start r" using c1 by (simp add: start_def)
      moreover have "stop r \<le> V"
      proof (cases "r + 1 < W")
        case True
        then have "(int r + 1) * c \<le> (int W - 1) * c" using c1 by (intro mult_right_mono) simp_all
        then show ?thesis using True le by (simp add: stop_def)
      next
        case False
        then show ?thesis by (simp add: stop_def)
      qed
      ultimately show "0 \<le> i \<and> i < V" using r by simp
    next
      fix i
      assume i: "0 \<le> i \<and> i < V"
      have cpos: "0 < c" using c1 by simp
      show "\<exists>r<W. start r \<le> i \<and> i < stop r"
      proof (cases "i < (int W - 1) * c")
        case True
        let ?r = "nat (i div c)"
        have d0: "0 \<le> i div c" using i cpos by (simp add: pos_imp_zdiv_nonneg_iff)
        have dm: "i = (i div c) * c + i mod c" by simp
        have m: "0 \<le> i mod c" "i mod c < c" using cpos by simp_all
        have lo: "(i div c) * c \<le> i" using dm m by linarith
        have "(i div c + 1) * c = (i div c) * c + c" by (simp add: algebra_simps)
        then have hi: "i < (i div c + 1) * c" using dm m by linarith
        have "i div c < int W - 1"
        proof (rule ccontr)
          assume "\<not> i div c < int W - 1"
          then have "(int W - 1) * c \<le> (i div c) * c" using cpos by (intro mult_right_mono) simp_all
          then show False using lo True by linarith
        qed
        then have rW: "?r + 1 < W" using d0 by linarith
        have "start ?r \<le> i" using d0 lo by (simp add: start_def)
        moreover have "i < stop ?r" using rW d0 hi by (simp add: stop_def)
        ultimately show ?thesis using rW by (intro exI[of _ ?r]) simp
      next
        case False
        have "start (W - 1) = (int W - 1) * c" using W by (simp add: start_def of_nat_diff)
        then have "start (W - 1) \<le> i" using False by simp
        moreover have "i < stop (W - 1)" using i W by (simp add: stop_def)
        ultimately show ?thesis using W by (intro exI[of _ "W - 1"]) simp
      qed
    qed
  qed
  show ?thesis
    apply (rule exI[of _ start], rule exI[of _ stop])
    using ranges first last contiguous disjoint cover unfolding c_def by blast
qed

theorem vocab_ranges_partition_witness:
  "(1::nat) \<le> 2 \<and> (1::int) \<le> 4 \<and>
   (\<exists>start stop.
     (\<forall>r<2. get_partitioned_vocab_range 4 2 r = Inr (start r, stop r)) \<and>
     start 0 = 0 \<and> stop (2 - 1) = 4 \<and>
     (\<forall>r. r + 1 < 2 \<longrightarrow> stop r = start (r + 1) \<and> stop r - start r = ceil_div 4 2) \<and>
     (\<forall>r<2. \<forall>q<2. \<forall>i. start r \<le> i \<and> i < stop r \<and> start q \<le> i \<and> i < stop q \<longrightarrow> r = q) \<and>
     ((\<forall>i. (\<exists>r<2. start r \<le> i \<and> i < stop r) \<longleftrightarrow> (0 \<le> i \<and> i < 4))
        \<longleftrightarrow> (int 2 - 1) * ceil_div 4 2 \<le> 4))"
proof -
  have h1: "(1::nat) \<le> 2" and h2: "(1::int) \<le> 4" by simp_all
  show ?thesis using h1 h2 vocab_ranges_partition[OF h1 h2] by blast
qed

text \<open>
  The claim as stated fails for \<open>V = 5\<close> and \<open>W = 4\<close>: the range of rank 2 reaches past the
  vocabulary and the range of rank 3 starts after it stops.
\<close>

theorem vocab_ranges_partition_counterexample:
  "get_partitioned_vocab_range 5 4 2 = Inr (4, 6) \<and> get_partitioned_vocab_range 5 4 3 = Inr (6, 5)"
  by code_simp

subsection \<open>The index into the chunked embedding table\<close>

lemma chunked_weight_Inr_iff:
  assumes "0 < W" "0 < length rows"
  shows "(\<exists>w. chunked_weight (Mat c rows) W r = Inr w) \<longleftrightarrow> r < length (chunk_ranges (length rows) W)"
  using assms by (auto simp: chunked_weight_def torch_chunk_def wrap_dim_def py_index_def)

lemma length_chunk_ranges_ge_iff:
  assumes "0 < n" "0 < w"
  shows "w \<le> length (chunk_ranges n w) \<longleftrightarrow> (w - 1) * ((n + w - 1) div w) < n"
proof -
  let ?k = "(n + w - 1) div w"
  have "w \<le> n + w - 1" using assms by simp
  then have k: "0 < ?k" using assms by (simp add: div_greater_zero_iff)
  have wk: "w * ?k = (w - 1) * ?k + ?k"
    using assms by (cases w) simp_all
  have "w \<le> (n + ?k - 1) div ?k \<longleftrightarrow> w * ?k \<le> n + ?k - 1"
    using k by (simp add: less_eq_div_iff_mult_less_eq)
  also have "\<dots> \<longleftrightarrow> (w - 1) * ?k < n" unfolding wk using k assms by linarith
  finally show ?thesis using length_chunk_ranges_pos[OF assms] by simp
qed

text \<open>
  C10 (as amended). For a world size \<open>W \<ge> 1\<close> and an embedding table of \<open>V \<ge> 1\<close> rows, the
  index \<open>chunked_weights[r]\<close> of \<open>_parallelize_embedding\<close> is in bounds for every rank
  \<open>r < W\<close> if and only if \<open>(W - 1) * ceil(V / W) < V\<close> (as when \<open>W\<close> divides \<open>V\<close>); otherwise
  \<open>torch.chunk\<close> returns fewer than \<open>W\<close> chunks and the index raises IndexError on the
  last ranks.
\<close>

theorem chunked_weight_in_bounds_iff:
  assumes "1 \<le> W" and "1 \<le> length rows"
  shows "(\<forall>r<W. \<exists>w. chunked_weight (Mat c rows) W r = Inr w)
           \<longleftrightarrow> (int W - 1) * ceil_div (int (length rows)) W < int (length rows)"
proof -
  have W: "0 < W" and V: "0 < length rows" using assms by auto
  let ?k = "(length rows + W - 1) div W"
  have "(\<forall>r<W. \<exists>w. chunked_weight (Mat c rows) W r = Inr w)
          \<longleftrightarrow> (\<forall>r<W. r < length (chunk_ranges (length rows) W))"
    using chunked_weight_Inr_iff[OF W V] by simp
  also have "\<dots> \<longleftrightarrow> W \<le> length (chunk_ranges (length rows) W)"
    using W by (metis less_le_trans not_le_imp_less order.strict_trans2 nat_less_le linorder_not_less)
  also have "\<dots> \<longleftrightarrow> (W - 1) * ?k < length rows"
    by (rule length_chunk_ranges_ge_iff[OF V W])
  also have "\<dots> \<longleftrightarrow> int ((W - 1) * ?k) < int (length rows)" by (simp only: of_nat_less_iff)
  also have "int ((W - 1) * ?k) = (int W - 1) * ceil_div (int (length rows)) W"
    using W by (simp add: ceil_div_nat of_nat_diff)
  finally show ?thesis .
qed

theorem chunked_weight_in_bounds_iff_witness:
  "(1::nat) \<le> 2 \<and> 1 \<le> length [[1::nat], [2]] \<and>
   ((\<forall>r<2. \<exists>w. chunked_weight (Mat 1 [[1::nat], [2]]) 2 r = Inr w)
           \<longleftrightarrow> (int 2 - 1) * ceil_div (int (length [[1::nat], [2]])) 2 < int (length [[1::nat], [2]]))"
proof -
  have h1: "(1::nat) \<le> 2" and h2: "1 \<le> length [[1::nat], [2]]" by simp_all
  show ?thesis using h1 h2 chunked_weight_in_bounds_iff[OF h1 h2, of 1] by blast
qed

text \<open>
  The claim as stated fails for \<open>V = 5\<close> and \<open>W = 4\<close>: the chunks have 2, 2 and 1 rows,
  and rank 3 finds no chunk.
\<close>

theorem chunked_weight_in_bounds_counterexample:
  "chunked_weight (Mat 1 [[0::nat], [1], [2], [3], [4]]) 4 3 = Inl IndexError"
  by code_simp

subsection \<open>The forward pass of the vocabulary-sharded embedding\<close>

















text \<open>
  C6 (as amended). With a world size of 1 the forward pass masks nothing: it looks the
  ids up as they are and hands the result to the reduce of the context, which it calls
  exactly once; its result is what that reduce returns, the plain lookup when the reduce
  over the single rank is the identity.
\<close>

theorem vocab_parallel_forward_world_size_one:
  assumes "get_tensor_parallel_world_size mpu = 1"
  shows "VocabParallelEmbedding_forward mpu num_embeddings table padding_idx inputs =
           (case F_embedding inputs table padding_idx of
              Inl e \<Rightarrow> (Inl e, [])
            | Inr out \<Rightarrow> (Inr (reduce mpu out), [Reduce out]))
         \<and> VocabParallelEmbedding_forward (simulated_reduce_mpu 1 0 peers) num_embeddings table
              padding_idx inputs =
           (case F_embedding inputs table padding_idx of
              Inl e \<Rightarrow> (Inl e, [])
            | Inr out \<Rightarrow> (Inr out, [Reduce out]))"
  using assms
  by (simp add: VocabParallelEmbedding_forward_def output_parallel_def mask_inputs_def
      simulated_reduce_mpu_def split: sum.splits)

theorem vocab_parallel_forward_world_size_one_witness:
  "get_tensor_parallel_world_size (simulated_reduce_mpu 1 0 (\<lambda>q. Vec [])) = 1 \<and>
   VocabParallelEmbedding_forward (simulated_reduce_mpu 1 0 (\<lambda>q. Vec [])) 2 (Mat 1 [[10], [20::int]])
       None [1, 0]
     = (Inr (Mat 1 [[20], [10]]), [Reduce (Mat 1 [[20], [10]])])"
proof -
  have h: "get_tensor_parallel_world_size (simulated_reduce_mpu 1 0 (\<lambda>q. Vec [] :: int tensor)) = 1"
    by (simp add: simulated_reduce_mpu_def)
  have f: "F_embedding [1, 0] (Mat 1 [[10], [20::int]]) None = Inr (Mat 1 [[20], [10]])"
    by (simp add: F_embedding_def padding_idx_check_def)
  show ?thesis
    using h f vocab_parallel_forward_world_size_one[OF h, of 2 "Mat 1 [[10], [20]]" None "[1, 0]"
        "\<lambda>q. Vec []"]
    by (simp add: simulated_reduce_mpu_def)
qed

text \<open>
  The claim as stated fails: with a world size of 1 the forward pass still calls the
  reduce of the context (line 57 is not guarded by the world size).
\<close>

theorem vocab_parallel_forward_world_size_one_counterexample:
  "snd (VocabParallelEmbedding_forward (simulated_reduce_mpu 1 0 (\<lambda>q. Vec [])) 2
          (Mat 1 [[10], [20::int]]) None [1]) = [Reduce (Mat 1 [[20]])]"
  by (simp add: VocabParallelEmbedding_forward_def output_parallel_def mask_inputs_def
      simulated_reduce_mpu_def F_embedding_def padding_idx_check_def)

subsection \<open>Rescaling the configuration integers\<close>

lemma reduce_attrs_frame:
  "cls (reduce_attrs W names m) = cls m \<and> weight (reduce_attrs W names m) = weight m \<and>
   bias (reduce_attrs W names m) = bias m \<and> mpu_attr (reduce_attrs W names m) = mpu_attr m \<and>
   reversed (reduce_attrs W names m) = reversed m \<and>
   gather_output (reduce_attrs W names m) = gather_output m \<and>
   orig_module (reduce_attrs W names m) = orig_module m"
  by (induction names arbitrary: m) (auto split: option.splits)

lemma reduce_attrs_notin:
  "n \<notin> set names \<Longrightarrow> attrs (reduce_attrs W names m) n = attrs m n"
  by (induction names arbitrary: m) (auto split: option.splits)

lemma reduce_attrs_in:
  "distinct names \<Longrightarrow> n \<in> set names \<Longrightarrow>
   attrs (reduce_attrs W names m) n = map_option (\<lambda>h. h div int W) (attrs m n)"
proof (induction names arbitrary: m)
  case Nil
  then show ?case by simp
next
  case (Cons a names)
  show ?case
  proof (cases "a = n")
    case True
    then have "n \<notin> set names" using Cons.prems by simp
    then show ?thesis using True by (simp add: reduce_attrs_notin split: option.splits)
  next
    case False
    then show ?thesis using Cons by (auto split: option.splits)
  qed
qed

lemma expand_attrs_frame:
  "cls (expand_attrs W names m) = cls m \<and> weight (expand_attrs W names m) = weight m \<and>
   bias (expand_attrs W names m) = bias m \<and> mpu_attr (expand_attrs W names m) = mpu_attr m \<and>
   reversed (expand_attrs W names m) = reversed m \<and>
   gather_output (expand_attrs W names m) = gather_output m \<and>
   orig_module (expand_attrs W names m) = orig_module m"
  by (induction names arbitrary: m) (auto split: option.splits)

lemma expand_attrs_notin:
  "n \<notin> set names \<Longrightarrow> attrs (expand_attrs W names m) n = attrs m n"
  by (induction names arbitrary: m) (auto split: option.splits)

lemma expand_attrs_in:
  "distinct names \<Longrightarrow> n \<in> set names \<Longrightarrow>
   attrs (expand_attrs W names m) n = map_option (\<lambda>h. h * int W) (attrs m n)"
proof (induction names arbitrary: m)
  case Nil
  then show ?case by simp
next
  case (Cons a names)
  show ?case
  proof (cases "a = n")
    case True
    then have "n \<notin> set names" using Cons.prems by simp
    then show ?thesis using True by (simp add: expand_attrs_notin split: option.splits)
  next
    case False
    then show ?thesis using Cons by (auto split: option.splits)
  qed
qed

lemma module_at_update_mp_arguments:
  "i < length (named_modules M) \<Longrightarrow>
   module_at (update_mp_arguments W tp M) i = reduce_attrs W (update_attrs tp) (module_at M i)"
  by (simp add: module_at_def update_mp_arguments_def split: prod.splits)

lemma module_at_deparallel_update_mp_arguments:
  "i < length (named_modules M) \<Longrightarrow>
   module_at (deparallel_update_mp_arguments W tp M) i = expand_attrs W (update_attrs tp) (module_at M i)"
  by (simp add: module_at_def deparallel_update_mp_arguments_def split: prod.splits)

lemma length_update_mp_arguments [simp]:
  "length (named_modules (update_mp_arguments W tp M)) = length (named_modules M)"
  by (simp add: update_mp_arguments_def)

lemma length_deparallel_update_mp_arguments [simp]:
  "length (named_modules (deparallel_update_mp_arguments W tp M)) = length (named_modules M)"
  by (simp add: deparallel_update_mp_arguments_def)

lemma div_mult_eq_iff_dvd:
  fixes h w :: int
  assumes "0 < w"
  shows "h div w * w = h \<longleftrightarrow> w dvd h"
  using assms by (metis dvd_div_mult_self dvd_triv_right)

text \<open>
  C7. For a world size \<open>W \<ge> 1\<close>, a name of the rescale list (each name listed once) and a
  module that carries an integer \<open>h\<close> under that name: the update of \<open>parallelize\<close>
  replaces \<open>h\<close> by \<open>h // W\<close>, the update of \<open>deparallelize\<close> replaces a value by that
  value times \<open>W\<close>, so down and then up gives \<open>(h // W) * W\<close>, which is \<open>h\<close> exactly when
  \<open>W\<close> divides \<open>h\<close>.
\<close>

theorem rescale_down_then_up:
  assumes "0 < W" and "distinct (update_attrs tp)" and "name \<in> set (update_attrs tp)"
      and "i < length (named_modules M)" and "attrs (module_at M i) name = Some h"
  shows "attrs (module_at (update_mp_arguments W tp M) i) name = Some (h div int W) \<and>
         attrs (module_at (deparallel_update_mp_arguments W tp M) i) name = Some (h * int W) \<and>
         attrs (module_at (deparallel_update_mp_arguments W tp (update_mp_arguments W tp M)) i) name
           = Some (h div int W * int W) \<and>
         (h div int W * int W = h \<longleftrightarrow> int W dvd h)"
proof -
  have a: "attrs (module_at (update_mp_arguments W tp M) i) name = Some (h div int W)"
    using assms by (simp add: module_at_update_mp_arguments reduce_attrs_in)
  have b: "attrs (module_at (deparallel_update_mp_arguments W tp M) i) name = Some (h * int W)"
    using assms by (simp add: module_at_deparallel_update_mp_arguments expand_attrs_in)
  have c: "attrs (module_at (deparallel_update_mp_arguments W tp (update_mp_arguments W tp M)) i) name
           = Some (h div int W * int W)"
    using assms a by (simp add: module_at_deparallel_update_mp_arguments expand_attrs_in)
  have d: "h div int W * int W = h \<longleftrightarrow> int W dvd h"
    using assms(1) by (intro div_mult_eq_iff_dvd) simp
  show ?thesis using a b c d by blast
qed

theorem rescale_down_then_up_witness:
  "0 < (2::nat) \<and> distinct (update_attrs example_mapping) \<and>
   ''num_heads'' \<in> set (update_attrs example_mapping) \<and>
   0 < length (named_modules example_model) \<and>
   attrs (module_at example_model 0) ''num_heads'' = Some 3 \<and>
   attrs (module_at (update_mp_arguments 2 example_mapping example_model) 0) ''num_heads''
     = Some (3 div int 2) \<and>
   attrs (module_at (deparallel_update_mp_arguments 2 example_mapping example_model) 0) ''num_heads''
     = Some (3 * int 2) \<and>
   attrs (module_at (deparallel_update_mp_arguments 2 example_mapping
                      (update_mp_arguments 2 example_mapping example_model)) 0) ''num_heads''
     = Some (3 div int 2 * int 2) \<and>
   (3 div int 2 * int 2 = (3::int) \<longleftrightarrow> int 2 dvd (3::int))"
proof -
  have h1: "0 < (2::nat)" by simp
  have h2: "distinct (update_attrs example_mapping)" by (simp add: example_mapping_def)
  have h3: "''num_heads'' \<in> set (update_attrs example_mapping)" by (simp add: example_mapping_def)
  have h4: "0 < length (named_modules example_model)" by (simp add: example_model_def)
  have h5: "attrs (module_at example_model 0) ''num_heads'' = Some 3"
    by (simp add: example_model_def module_at_def plain_module_def)
  show ?thesis
    using h1 h2 h3 h4 h5 rescale_down_then_up[OF h1 h2 h3 h4 h5] by blast
qed

subsection \<open>Slicing a fused weight\<close>

text \<open>
  C2. The scenario of the claim, on the code: a weight of shape [12, 4], fusion degree 3,
  world size 2, sliced along dimension 0. Rank 0 gets the entries of the chunks 0, 2 and
  4 and rank 1 those of the chunks 1, 3 and 5, but \<open>_deconstruct_combined_qkv\<close> joins
  them along the last dimension: the shard has shape [2, 12], not the [6, 4] that joining
  along the slicing dimension gives.
\<close>

theorem deconstruct_concatenates_last_dim:
  "slice_data fused_weight 3 2 0 0 =
     Inr (Mat 12 [[0, 1, 2, 3, 16, 17, 18, 19, 32, 33, 34, 35],
                  [4, 5, 6, 7, 20, 21, 22, 23, 36, 37, 38, 39]]) \<and>
   slice_data fused_weight 3 2 1 0 =
     Inr (Mat 12 [[8, 9, 10, 11, 24, 25, 26, 27, 40, 41, 42, 43],
                  [12, 13, 14, 15, 28, 29, 30, 31, 44, 45, 46, 47]])"
  by code_simp

subsection \<open>The feature counts after slicing\<close>

text \<open>
  C8. On the code, for a layer that is not reversed: \<open>fc\<close> has 2 input and 8 output
  features (weight of shape [8, 2]). After the column slice on rank 0 of 2 the weight
  has shape [4, 2], that is 4 output and 2 input features, but \<open>in_features\<close> is set to
  4 and \<open>out_features\<close> to 2: \<open>_slice\<close> reads them off dimensions 0 and 1 whatever the
  layout.
\<close>

theorem slice_features_swapped:
  "attrs (module_at example_model 1) ''in_features'' = Some 2 \<and>
   attrs (module_at example_model 1) ''out_features'' = Some 8 \<and>
   tensor_size (data (parameters example_model 0)) = [8, 2] \<and>
   fst (column_slice 2 0 1 1 False example_model) = None \<and>
   tensor_size (data (parameters (snd (column_slice 2 0 1 1 False example_model)) 0)) = [4, 2] \<and>
   attrs (module_at (snd (column_slice 2 0 1 1 False example_model)) 1) ''in_features'' = Some 4 \<and>
   attrs (module_at (snd (column_slice 2 0 1 1 False example_model)) 1) ''out_features'' = Some 2"
  by code_simp

subsection \<open>A model without the embedding accessor\<close>

lemma parameters_update_mp_arguments [simp]:
  "parameters (update_mp_arguments W tp M) = parameters M"
  by (simp add: update_mp_arguments_def)

lemma get_input_embeddings_update_mp_arguments [simp]:
  "get_input_embeddings (update_mp_arguments W tp M) = get_input_embeddings M"
  by (simp add: update_mp_arguments_def)

lemma names_update_mp_arguments [simp]:
  "map fst (named_modules (update_mp_arguments W tp M)) = map fst (named_modules M)"
  by (simp add: update_mp_arguments_def comp_def split: prod.splits)

lemma reduce_attrs_only_attrs:
  "reduce_attrs W names m = m\<lparr>attrs := attrs (reduce_attrs W names m)\<rparr>"
  by (rule pmodule.equality) (simp_all add: reduce_attrs_frame)

text \<open>
  C3 (as amended). When the model lacks \<open>get_input_embeddings\<close>, \<open>parallelize\<close> raises the
  assertion error after \<open>_update_mp_arguments\<close> has run and before anything else: no
  parameter or buffer has changed and no module has changed its name, class or any
  attribute other than the integers of the rescale list, which are already divided by
  the world size.
\<close>

theorem parallelize_without_accessor:
  assumes "get_input_embeddings M = None"
  shows "parallelize W r tp M = (Some AssertionError, update_mp_arguments W tp M) \<and>
         parameters (snd (parallelize W r tp M)) = parameters M \<and>
         map fst (named_modules (snd (parallelize W r tp M))) = map fst (named_modules M) \<and>
         (\<forall>i<length (named_modules M).
            module_at (snd (parallelize W r tp M)) i =
              (module_at M i)\<lparr>attrs := attrs (reduce_attrs W (update_attrs tp) (module_at M i))\<rparr>)"
proof -
  have p: "parallelize W r tp M = (Some AssertionError, update_mp_arguments W tp M)"
    using assms by (simp add: parallelize_def parallelize_embedding_def)
  have m: "\<forall>i<length (named_modules M).
            module_at (update_mp_arguments W tp M) i =
              (module_at M i)\<lparr>attrs := attrs (reduce_attrs W (update_attrs tp) (module_at M i))\<rparr>"
    using reduce_attrs_only_attrs by (simp add: module_at_update_mp_arguments)
  show ?thesis unfolding p using m by simp
qed

theorem parallelize_without_accessor_witness:
  "get_input_embeddings example_model = None \<and>
   parallelize 2 0 example_mapping example_model
     = (Some AssertionError, update_mp_arguments 2 example_mapping example_model) \<and>
   parameters (snd (parallelize 2 0 example_mapping example_model)) = parameters example_model"
proof -
  have h: "get_input_embeddings example_model = None" by (simp add: example_model_def)
  show ?thesis using h parallelize_without_accessor[OF h, of 2 0 example_mapping] by blast
qed

text \<open>
  The claim as stated fails: the error surfaces with \<open>num_heads\<close> already rescaled from
  3 to 1.
\<close>

theorem parallelize_without_accessor_counterexample:
  "fst (parallelize 2 0 example_mapping example_model) = Some AssertionError \<and>
   attrs (module_at example_model 0) ''num_heads'' = Some 3 \<and>
   attrs (module_at (snd (parallelize 2 0 example_mapping example_model)) 0) ''num_heads'' = Some 1"
  by code_simp

subsection \<open>Slicing a tensor and merging the shards\<close>


lemma concat_pieces:
  "concat (map (\<lambda>i. take k (drop (s + i * k) xs)) [0..<n]) = take (n * k) (drop s xs)"
proof (induction n)
  case 0
  then show ?case by simp
next
  case (Suc n)
  have "take (n * k + k) (drop s xs) = take (n * k) (drop s xs) @ take k (drop (n * k) (drop s xs))"
    by (rule take_add)
  then have "take (n * k) (drop s xs) @ take k (drop (s + n * k) xs) = take (Suc n * k) (drop s xs)"
    by (simp add: add.commute)
  then show ?case using Suc by simp
qed

lemma piece_of_concat:
  assumes "\<And>i. i < n \<Longrightarrow> length (f i) = k" and "j < n"
  shows "take k (drop (j * k) (concat (map f [0..<n]))) = f j"
  using assms
proof (induction n arbitrary: j)
  case 0
  then show ?case by simp
next
  case (Suc n)
  have len: "length (concat (map f [0..<n])) = n * k"
    using Suc.prems(1) by (induction n) simp_all
  show ?case
  proof (cases "j < n")
    case True
    then have "(j + 1) * k \<le> n * k" by (intro mult_le_mono1) simp
    then have "j * k + k \<le> n * k" by (simp add: algebra_simps)
    then have "take k (drop (j * k) (concat (map f [0..<n]) @ f n))
             = take k (drop (j * k) (concat (map f [0..<n])))"
      using len by simp
    then show ?thesis using Suc.IH[of j] Suc.prems True by simp
  next
    case False
    then have "j = n" using Suc.prems by simp
    then show ?thesis using len Suc.prems by simp
  qed
qed

lemma sequence_results_map_Inr:
  "(\<And>x. x \<in> set xs \<Longrightarrow> f x = Inr (g x)) \<Longrightarrow> sequence_results (map f xs) = Inr (map g xs)"
  by (induction xs) simp_all

lemma chunk_ranges_dvd:
  assumes "0 < n"
  shows "chunk_ranges (n * k) n = map (\<lambda>i. (i * k, k)) [0..<n]"
proof (cases "k = 0")
  case True
  have "replicate n (0::nat, 0::nat) = map (\<lambda>i. (0, 0)) [0..<n]"
    by (simp add: map_replicate_const)
  then show ?thesis using True assms by (simp add: chunk_ranges_def)
next
  case False
  have a: "(n * k + n - 1) div n = k"
  proof -
    have e: "n * k + n - 1 = (n - 1) + k * n" using assms by (cases n) simp_all
    have "((n - 1) + k * n) div n = k + (n - 1) div n" using assms by (intro div_mult_self1) simp
    then show ?thesis unfolding e using assms by simp
  qed
  have b: "(n * k + k - 1) div k = n"
  proof -
    have e: "n * k + k - 1 = (k - 1) + n * k" using False by (cases k) simp_all
    have "((k - 1) + n * k) div k = n + (k - 1) div k" using False by (intro div_mult_self1) simp
    then show ?thesis unfolding e using False by simp
  qed
  have "\<And>i. i < n \<Longrightarrow> min k (n * k - i * k) = k"
  proof -
    fix i assume "i < n"
    then have "(i + 1) * k \<le> n * k" by (intro mult_le_mono1) simp
    then show "min k (n * k - i * k) = k" by (simp add: algebra_simps)
  qed
  moreover have "max n 1 = n" using assms by simp
  ultimately show ?thesis using False assms a b by (simp add: chunk_ranges_def Let_def)
qed

lemma has_dim_wrap: "has_dim t d \<Longrightarrow> wrap_dim (tensor_dim t) (int d) = Inr d"
  by (cases t) (auto simp: wrap_dim_def)

lemma has_dim_wrap_last:
  "has_dim t d \<Longrightarrow> Suc d = tensor_dim t \<Longrightarrow> wrap_dim (tensor_dim t) (- 1) = Inr d"
  by (cases t) (auto simp: wrap_dim_def)

lemma torch_chunk_even:
  assumes "has_dim t d" and "tensor_size t ! d = n * k" and "0 < n"
  shows "torch_chunk t (int n) (int d) = Inr (map (\<lambda>i. narrow t d (i * k) k) [0..<n])"
  using assms has_dim_wrap[OF assms(1)]
  by (cases t) (auto simp: torch_chunk_def chunk_ranges_dvd)

lemma sum_list_const: "(\<And>x. x \<in> set xs \<Longrightarrow> f x = c) \<Longrightarrow> sum_list (map f xs) = length xs * c" for c :: nat
  by (induction xs) simp_all

lemma torch_cat_Vecs:
  assumes "ts \<noteq> []" and "\<forall>t\<in>set ts. tensor_dim t = 1" and "wrap_dim 1 dd = Inr d'"
  shows "torch_cat ts dd = Inr (Vec (concat (map vec_elems ts)))"
proof -
  obtain t ts' where ts: "ts = t # ts'" using assms(1) by (cases ts) auto
  then obtain xs where t: "t = Vec xs" using assms(2) by (cases t) auto
  have "list_all (\<lambda>t. tensor_dim t = 1) ts" using assms(2) by (simp add: list_all_iff)
  then show ?thesis using assms(3) unfolding torch_cat_def ts t by simp
qed

lemma torch_cat_Mats_0:
  assumes "ts \<noteq> []" and "\<forall>t\<in>set ts. tensor_dim t = 2 \<and> mat_cols t = c" and "wrap_dim 2 dd = Inr 0"
  shows "torch_cat ts dd = Inr (Mat c (concat (map mat_rows ts)))"
proof -
  obtain t ts' where ts: "ts = t # ts'" using assms(1) by (cases ts) auto
  then obtain rows where t: "t = Mat c rows" using assms(2) by (cases t) auto
  have "list_all (\<lambda>t. tensor_dim t = 2) ts" "list_all (\<lambda>t. mat_cols t = c) ts"
    using assms(2) by (simp_all add: list_all_iff)
  then show ?thesis using assms(3) unfolding torch_cat_def ts t by simp
qed

lemma torch_cat_Mats_1:
  assumes "ts \<noteq> []" and "\<forall>t\<in>set ts. tensor_dim t = 2 \<and> length (mat_rows t) = m"
      and "wrap_dim 2 dd = Inr 1"
  shows "torch_cat ts dd = Inr (Mat (sum_list (map mat_cols ts))
                                (map (\<lambda>i. concat (map (\<lambda>t. mat_rows t ! i) ts)) [0..<m]))"
proof -
  obtain t ts' where ts: "ts = t # ts'" using assms(1) by (cases ts) auto
  then obtain c rows where t: "t = Mat c rows" "length rows = m" using assms(2) by (cases t) auto
  have "list_all (\<lambda>t. tensor_dim t = 2) ts" "list_all (\<lambda>t. length (mat_rows t) = m) ts"
    using assms(2) by (simp_all add: list_all_iff)
  then show ?thesis using assms(3) t(2) unfolding torch_cat_def ts t(1) by simp
qed

lemma torch_cat_narrows:
  assumes "has_dim t d" and "0 < n" and "wrap_dim (tensor_dim t) dd = Inr d"
  shows "torch_cat (map (\<lambda>j. narrow t d (ofs j) k) [0..<n]) dd = Inr (pieces_at t d ofs k n)"
proof -
  have ne: "map (\<lambda>j. narrow t d (ofs j) k) [0..<n] \<noteq> []" using assms(2) by simp
  show ?thesis
  proof (cases t)
    case (Scalar x)
    then show ?thesis using assms by simp
  next
    case (Vec xs)
    have "torch_cat (map (\<lambda>j. narrow t d (ofs j) k) [0..<n]) dd
            = Inr (Vec (concat (map vec_elems (map (\<lambda>j. narrow t d (ofs j) k) [0..<n]))))"
      using assms Vec by (intro torch_cat_Vecs[OF ne, of dd d]) auto
    then show ?thesis using Vec by (simp add: comp_def)
  next
    case (Mat c rows)
    show ?thesis
    proof (cases "d = 0")
      case True
      have "torch_cat (map (\<lambda>j. narrow t d (ofs j) k) [0..<n]) dd
            = Inr (Mat c (concat (map mat_rows (map (\<lambda>j. narrow t d (ofs j) k) [0..<n]))))"
        using assms Mat True by (intro torch_cat_Mats_0[OF ne]) auto
      then show ?thesis using Mat True by (simp add: comp_def)
    next
      case False
      then have d1: "d = 1" using assms(1) Mat by simp
      let ?ps = "map (\<lambda>j. narrow t d (ofs j) k) [0..<n]"
      have c: "torch_cat ?ps dd = Inr (Mat (sum_list (map mat_cols ?ps))
                 (map (\<lambda>i. concat (map (\<lambda>t. mat_rows t ! i) ?ps)) [0..<length rows]))"
        using assms Mat d1 by (intro torch_cat_Mats_1[OF ne]) auto
      have "\<And>x. x \<in> set ?ps \<Longrightarrow> mat_cols x = k" using Mat d1 by auto
      then have "sum_list (map mat_cols ?ps) = length ?ps * k" by (rule sum_list_const)
      then have s: "sum_list (map mat_cols ?ps) = n * k" by simp
      have r: "map (\<lambda>i. concat (map (\<lambda>t. mat_rows t ! i) ?ps)) [0..<length rows]
             = map (\<lambda>row. concat (map (\<lambda>j. take k (drop (ofs j) row)) [0..<n])) rows"
        using Mat d1 by (intro nth_equalityI) (simp_all add: comp_def)
      show ?thesis using Mat d1 c s r by simp
    qed
  qed
qed

lemma pieces_at_consecutive:
  "has_dim t d \<Longrightarrow> pieces_at t d (\<lambda>j. s + j * k) k n = narrow t d s (n * k)"
  by (cases t) (auto simp: concat_pieces)

lemma narrow_full:
  "tensor_ok t \<Longrightarrow> has_dim t d \<Longrightarrow> narrow t d 0 (tensor_size t ! d) = t"
  by (cases t) (auto simp: list_all_iff intro: map_idI)

lemma length_concat_const:
  "(\<And>i. i < n \<Longrightarrow> length (f i) = k) \<Longrightarrow> length (concat (map f [0..<n])) = n * k"
  by (induction n) simp_all

lemma narrow_pieces_at:
  assumes "has_dim t d" and "tensor_ok t" and "\<And>i. i < n \<Longrightarrow> ofs i + k \<le> tensor_size t ! d" and "j < n"
  shows "narrow (pieces_at t d ofs k n) d (j * k) k = narrow t d (ofs j) k"
proof (cases t)
  case (Scalar x)
  then show ?thesis using assms by simp
next
  case (Vec xs)
  have "\<And>i. i < n \<Longrightarrow> length (take k (drop (ofs i) xs)) = k" using assms(1,3) Vec by fastforce
  then show ?thesis using Vec assms(4) piece_of_concat[of n "\<lambda>i. take k (drop (ofs i) xs)" k j] by simp
next
  case (Mat c rows)
  show ?thesis
  proof (cases "d = 0")
    case True
    have "\<And>i. i < n \<Longrightarrow> length (take k (drop (ofs i) rows)) = k" using assms(3) Mat True by fastforce
    then show ?thesis using Mat True assms(4) piece_of_concat[of n "\<lambda>i. take k (drop (ofs i) rows)" k j] by simp
  next
    case False
    then have d1: "d = 1" using assms(1) Mat by simp
    have "\<And>row. row \<in> set rows \<Longrightarrow>
        take k (drop (j * k) (concat (map (\<lambda>i. take k (drop (ofs i) row)) [0..<n]))) = take k (drop (ofs j) row)"
    proof -
      fix row assume "row \<in> set rows"
      then have "length row = c" using assms(2) Mat by (simp add: list_all_iff)
      then have "\<And>i. i < n \<Longrightarrow> length (take k (drop (ofs i) row)) = k" using assms(3) Mat d1 by fastforce
      then show "take k (drop (j * k) (concat (map (\<lambda>i. take k (drop (ofs i) row)) [0..<n]))) = take k (drop (ofs j) row)"
        using assms(4) piece_of_concat[of n "\<lambda>i. take k (drop (ofs i) row)" k j] by simp
    qed
    then show ?thesis using Mat d1 by simp
  qed
qed

lemma pieces_at_shape:
  assumes "has_dim t d" and "tensor_ok t" and "\<And>i. i < n \<Longrightarrow> ofs i + k \<le> tensor_size t ! d"
  shows "has_dim (pieces_at t d ofs k n) d \<and> tensor_dim (pieces_at t d ofs k n) = tensor_dim t \<and>
         tensor_size (pieces_at t d ofs k n) = (tensor_size t)[d := n * k]"
proof (cases t)
  case (Scalar x)
  then show ?thesis using assms by simp
next
  case (Vec xs)
  have "\<And>i. i < n \<Longrightarrow> length (take k (drop (ofs i) xs)) = k" using assms(1,3) Vec by fastforce
  then have "length (concat (map (\<lambda>i. take k (drop (ofs i) xs)) [0..<n])) = n * k"
    by (rule length_concat_const)
  then show ?thesis using Vec assms(1) by simp
next
  case (Mat c rows)
  show ?thesis
  proof (cases "d = 0")
    case True
    have "\<And>i. i < n \<Longrightarrow> length (take k (drop (ofs i) rows)) = k" using assms(3) Mat True by fastforce
    then have "length (concat (map (\<lambda>i. take k (drop (ofs i) rows)) [0..<n])) = n * k"
      by (rule length_concat_const)
    then show ?thesis using Mat True by simp
  next
    case False
    then show ?thesis using Mat assms(1) by simp
  qed
qed

lemma narrow_shape:
  assumes "has_dim t d" and "s + l \<le> tensor_size t ! d"
  shows "has_dim (narrow t d s l) d \<and> tensor_dim (narrow t d s l) = tensor_dim t \<and>
         tensor_size (narrow t d s l) = (tensor_size t)[d := l]"
  using assms by (cases t) auto

lemma min_list_const: "xs \<noteq> [] \<Longrightarrow> (\<And>x. x \<in> set xs \<Longrightarrow> x = c) \<Longrightarrow> min_list xs = c"
proof (induction xs rule: list_nonempty_induct)
  case (single x)
  then show ?case by simp
next
  case (cons x xs)
  then obtain y ys where "xs = y # ys" by (cases xs) auto
  then have "min_list (x # xs) = min x (min_list xs)" by simp
  moreover have "x = c" using cons.prems by simp
  moreover have "min_list xs = c" using cons by simp
  ultimately show ?case by (simp add: min_def)
qed

lemma ceil_div_mult: "0 < W \<Longrightarrow> (n * W + W - 1) div W = n" for n W :: nat
proof -
  assume W: "0 < W"
  have e: "n * W + W - 1 = (W - 1) + n * W" using W by (cases W) simp_all
  have "((W - 1) + n * W) div W = n + (W - 1) div W" using W by (intro div_mult_self1) simp
  then show ?thesis unfolding e using W by simp
qed

lemma deconstruct_even:
  assumes W: "0 < W" and n: "0 < n" and len: "length cs = n * W"
      and cat: "\<And>r. r < W \<Longrightarrow> torch_cat (map (\<lambda>j. cs ! (j * W + r)) [0..<n]) (- 1) = Inr (g r)"
  shows "deconstruct_combined_qkv cs W = Inr (map g [0..<W])"
proof -
  let ?groups = "map (\<lambda>i. take W (drop (i * W) cs)) [0..<n]"
  have ranks: "(length cs + W - 1) div W = n" unfolding len by (rule ceil_div_mult[OF W])
  have glen: "\<And>i. i < n \<Longrightarrow> length (take W (drop (i * W) cs)) = W"
  proof -
    fix i assume "i < n"
    then have "(i + 1) * W \<le> n * W" by (intro mult_le_mono1) simp
    then show "length (take W (drop (i * W) cs)) = W" using len by (simp add: algebra_simps)
  qed
  have ne: "map length ?groups \<noteq> []" using n by simp
  have "min_list (map length ?groups) = W"
    using glen by (intro min_list_const[OF ne]) auto
  moreover have "?groups \<noteq> []" using n by simp
  ultimately have zs: "zip_star ?groups = map (\<lambda>r. map (\<lambda>g. g ! r) ?groups) [0..<W]"
    by (simp add: zip_star_def)
  have tup: "\<And>r. r < W \<Longrightarrow> map (\<lambda>i. take W (drop (i * W) cs) ! r) [0..<n] = map (\<lambda>j. cs ! (j * W + r)) [0..<n]"
  proof (intro map_cong refl)
    fix r j assume r: "r < W" and "j \<in> set [0..<n]"
    then have j: "j < n" by simp
    then have "(j + 1) * W \<le> n * W" by (intro mult_le_mono1) simp
    then have "j * W + r < length cs" using r len by (simp add: algebra_simps)
    then show "take W (drop (j * W) cs) ! r = cs ! (j * W + r)" using r by simp
  qed
  have "map (\<lambda>x. torch_cat x (- 1)) (zip_star ?groups)
          = map (\<lambda>r. torch_cat (map (\<lambda>j. cs ! (j * W + r)) [0..<n]) (- 1)) [0..<W]"
    unfolding zs map_map comp_def
    by (rule map_cong[OF refl]) (simp only: set_upt atLeastLessThan_iff tup)
  moreover have "sequence_results (map (\<lambda>r. torch_cat (map (\<lambda>j. cs ! (j * W + r)) [0..<n]) (- 1)) [0..<W])
          = Inr (map g [0..<W])"
    using cat by (intro sequence_results_map_Inr) simp
  ultimately show ?thesis
    unfolding deconstruct_combined_qkv_def Let_def ranks by simp
qed

lemma pieces_at_cong:
  "(\<And>j. j < n \<Longrightarrow> f j = g j) \<Longrightarrow> pieces_at t d f k n = pieces_at t d g k n"
proof -
  assume a: "\<And>j. j < n \<Longrightarrow> f j = g j"
  have b: "\<And>xs :: 'a list. concat (map (\<lambda>j. take k (drop (f j) xs)) [0..<n])
                              = concat (map (\<lambda>j. take k (drop (g j) xs)) [0..<n])"
    by (intro arg_cong[where f = concat] map_cong) (simp_all add: a)
  have c: "\<And>xs :: 'a list list. concat (map (\<lambda>j. take k (drop (f j) xs)) [0..<n])
                              = concat (map (\<lambda>j. take k (drop (g j) xs)) [0..<n])"
    by (intro arg_cong[where f = concat] map_cong) (simp_all add: a)
  show ?thesis by (cases t) (simp_all add: b c)
qed

lemma pieces_at_single:
  "has_dim t d \<Longrightarrow> pieces_at t d ofs k (Suc 0) = narrow t d (ofs 0) k"
  by (cases t) auto

lemma slice_data_even:
  assumes ev: "slices_evenly t F W d" and W: "0 < W" and r: "r < W"
  shows "slice_data t F W r (int d) = Inr (shard_of t F W d r)"
proof -
  define k where "k = (tensor_size t ! d) div (nat F * W)"
  have hd: "has_dim t d" and F1: "1 \<le> F" using ev by (simp_all add: slices_evenly_def)
  have size: "tensor_size t ! d = (nat F * W) * k"
    using ev by (simp add: slices_evenly_def k_def)
  have nF: "0 < nat F" using F1 by simp
  have FW: "F * int W = int (nat F * W)" using F1 by simp
  have chunk: "torch_chunk t (F * int W) (int d) = Inr (map (\<lambda>i. narrow t d (i * k) k) [0..<nat F * W])"
    unfolding FW using nF W by (intro torch_chunk_even[OF hd size]) simp
  show ?thesis
  proof (cases "F > 1")
    case False
    then have F: "F = 1" using F1 by simp
    have "nat F = Suc 0" using F by simp
    then have "shard_of t F W d r = narrow t d (r * k) k"
      unfolding shard_of_def k_def[symmetric] Let_def by (simp add: pieces_at_single[OF hd])
    then show ?thesis using chunk r F by (simp add: slice_data_def py_index_def)
  next
    case True
    then have last: "Suc d = tensor_dim t" using ev by (simp add: slices_evenly_def)
    let ?cs = "map (\<lambda>i. narrow t d (i * k) k) [0..<nat F * W]"
    have idx: "\<And>j q. j < nat F \<Longrightarrow> q < W \<Longrightarrow> j * W + q < nat F * W"
    proof -
      fix j q assume "j < nat F" "q < W"
      then have "(j + 1) * W \<le> nat F * W" by (intro mult_le_mono1) simp
      then show "j * W + q < nat F * W" using \<open>q < W\<close> by (simp add: algebra_simps)
    qed
    have cat: "\<And>q. q < W \<Longrightarrow>
        torch_cat (map (\<lambda>j. ?cs ! (j * W + q)) [0..<nat F]) (- 1) = Inr (shard_of t F W d q)"
    proof -
      fix q assume q: "q < W"
      have "map (\<lambda>j. ?cs ! (j * W + q)) [0..<nat F] = map (\<lambda>j. narrow t d ((j * W + q) * k) k) [0..<nat F]"
        using idx[OF _ q] by (simp cong: map_cong)
      then show "torch_cat (map (\<lambda>j. ?cs ! (j * W + q)) [0..<nat F]) (- 1) = Inr (shard_of t F W d q)"
        unfolding shard_of_def k_def[symmetric] Let_def
        using torch_cat_narrows[OF hd nF has_dim_wrap_last[OF hd last], of "\<lambda>j. (j * W + q) * k" k]
        by (simp only:)
    qed
    have "deconstruct_combined_qkv ?cs W = Inr (map (shard_of t F W d) [0..<W])"
      by (rule deconstruct_even[OF W nF _ cat]) simp_all
    then show ?thesis using chunk True r by (simp add: slice_data_def py_index_def)
  qed
qed

lemma shard_of_shape:
  assumes ev: "slices_evenly t F W d" and W: "0 < W" and r: "r < W"
  shows "has_dim (shard_of t F W d r) d \<and> tensor_dim (shard_of t F W d r) = tensor_dim t \<and>
         tensor_size (shard_of t F W d r)
           = (tensor_size t)[d := nat F * ((tensor_size t ! d) div (nat F * W))]"
proof -
  define k where "k = (tensor_size t ! d) div (nat F * W)"
  have hd: "has_dim t d" and ok: "tensor_ok t" and F1: "1 \<le> F" using ev by (simp_all add: slices_evenly_def)
  have size: "tensor_size t ! d = (nat F * W) * k"
    using ev by (simp add: slices_evenly_def k_def)
  have bound: "\<And>j. j < nat F \<Longrightarrow> (j * W + r) * k + k \<le> tensor_size t ! d"
  proof -
    fix j assume "j < nat F"
    then have "(j + 1) * W \<le> nat F * W" by (intro mult_le_mono1) simp
    then have "j * W + r + 1 \<le> nat F * W" using r by (simp add: algebra_simps)
    then have "(j * W + r + 1) * k \<le> (nat F * W) * k" by (rule mult_le_mono1)
    then show "(j * W + r) * k + k \<le> tensor_size t ! d" unfolding size by (simp add: algebra_simps)
  qed
  show ?thesis
    unfolding shard_of_def k_def[symmetric] Let_def
    by (rule pieces_at_shape[OF hd ok bound])
qed

lemma sequence_results_map_Inr_upt:
  "(\<And>i. i < n \<Longrightarrow> f i = Inr (g i)) \<Longrightarrow> sequence_results (map f [0..<n]) = Inr (map g [0..<n])"
  by (intro sequence_results_map_Inr) simp

lemma merge_even:
  assumes ev: "slices_evenly t F W d" and W: "0 < W"
  shows "(if F > 1 then reconstruct_combined_qkv (map (shard_of t F W d) [0..<W]) F (int d)
          else torch_cat (map (shard_of t F W d) [0..<W]) (int d)) = Inr t"
proof -
  define k where "k = (tensor_size t ! d) div (nat F * W)"
  have hd: "has_dim t d" and ok: "tensor_ok t" and F1: "1 \<le> F" using ev by (simp_all add: slices_evenly_def)
  have size: "tensor_size t ! d = (nat F * W) * k"
    using ev by (simp add: slices_evenly_def k_def)
  have nF: "0 < nat F" using F1 by simp
  have wd: "wrap_dim (tensor_dim t) (int d) = Inr d" by (rule has_dim_wrap[OF hd])
  show ?thesis
  proof (cases "F > 1")
    case False
    then have F: "nat F = Suc 0" using F1 by simp
    have sh: "shard_of t F W d = (\<lambda>r. narrow t d (r * k) k)"
      unfolding shard_of_def Let_def k_def[symmetric] unfolding F
      by (rule ext) (simp add: pieces_at_single[OF hd])
    have "torch_cat (map (\<lambda>r. narrow t d (0 + r * k) k) [0..<W]) (int d)
            = Inr (pieces_at t d (\<lambda>r. 0 + r * k) k W)"
      by (rule torch_cat_narrows[OF hd W wd])
    also have "pieces_at t d (\<lambda>r. 0 + r * k) k W = narrow t d 0 (W * k)"
      by (rule pieces_at_consecutive[OF hd])
    also have "\<dots> = t" using narrow_full[OF ok hd] size F by simp
    finally show ?thesis using False sh by simp
  next
    case True
    let ?S = "shard_of t F W d"
    have bound: "\<And>r j. r < W \<Longrightarrow> j < nat F \<Longrightarrow> (j * W + r) * k + k \<le> tensor_size t ! d"
    proof -
      fix r j assume r: "r < W" and "j < nat F"
      then have "(j + 1) * W \<le> nat F * W" by (intro mult_le_mono1) simp
      then have "j * W + r + 1 \<le> nat F * W" using r by (simp add: algebra_simps)
      then have "(j * W + r + 1) * k \<le> (nat F * W) * k" by (rule mult_le_mono1)
      then show "(j * W + r) * k + k \<le> tensor_size t ! d" unfolding size by (simp add: algebra_simps)
    qed
    have chunkS: "\<And>r. r < W \<Longrightarrow>
        torch_chunk (?S r) F (int d) = Inr (map (\<lambda>j. narrow t d ((j * W + r) * k) k) [0..<nat F])"
    proof -
      fix r assume r: "r < W"
      have shp: "has_dim (?S r) d" "tensor_size (?S r) ! d = nat F * k"
        using shard_of_shape[OF ev W r] hd unfolding k_def[symmetric] by (cases t; auto)+
      have "torch_chunk (?S r) (int (nat F)) (int d) = Inr (map (\<lambda>j. narrow (?S r) d (j * k) k) [0..<nat F])"
        by (rule torch_chunk_even[OF shp nF])
      moreover have "map (\<lambda>j. narrow (?S r) d (j * k) k) [0..<nat F]
                   = map (\<lambda>j. narrow t d ((j * W + r) * k) k) [0..<nat F]"
      proof (intro map_cong refl)
        fix j assume "j \<in> set [0..<nat F]"
        then have j: "j < nat F" by simp
        show "narrow (?S r) d (j * k) k = narrow t d ((j * W + r) * k) k"
          unfolding shard_of_def k_def[symmetric] Let_def
          by (rule narrow_pieces_at[OF hd ok bound[OF r] j])
      qed
      ultimately show "torch_chunk (?S r) F (int d) = Inr (map (\<lambda>j. narrow t d ((j * W + r) * k) k) [0..<nat F])"
        using F1 by simp
    qed
    let ?chunks = "map (\<lambda>r. map (\<lambda>j. narrow t d ((j * W + r) * k) k) [0..<nat F]) [0..<W]"
    have seq1: "sequence_results (map (\<lambda>tensor. torch_chunk tensor F (int d)) (map ?S [0..<W])) = Inr ?chunks"
      unfolding map_map comp_def by (rule sequence_results_map_Inr_upt[OF chunkS])
    have slot: "\<And>i. i < nat F \<Longrightarrow>
        torch_cat (map (\<lambda>cs. cs ! i) (filter (\<lambda>cs. i < length cs) ?chunks)) (int d)
          = Inr (narrow t d (i * (W * k)) (W * k))"
    proof -
      fix i assume i: "i < nat F"
      have a: "filter (\<lambda>cs. i < length cs) ?chunks = ?chunks" using i by (intro filter_True) auto
      have b: "map (\<lambda>cs. cs ! i) ?chunks = map (\<lambda>r. narrow t d (i * (W * k) + r * k) k) [0..<W]"
        unfolding map_map comp_def using i by (intro map_cong refl) (simp add: algebra_simps)
      have c: "torch_cat (map (\<lambda>r. narrow t d (i * (W * k) + r * k) k) [0..<W]) (int d)
                       = Inr (pieces_at t d (\<lambda>r. i * (W * k) + r * k) k W)"
        by (rule torch_cat_narrows[OF hd W wd])
      have e: "pieces_at t d (\<lambda>r. i * (W * k) + r * k) k W = narrow t d (i * (W * k)) (W * k)"
        by (rule pieces_at_consecutive[OF hd])
      show "torch_cat (map (\<lambda>cs. cs ! i) (filter (\<lambda>cs. i < length cs) ?chunks)) (int d)
          = Inr (narrow t d (i * (W * k)) (W * k))" by (simp only: a b c e)
    qed
    have seq2: "sequence_results
                  (map (\<lambda>i. torch_cat (map (\<lambda>cs. cs ! i) (filter (\<lambda>cs. i < length cs) ?chunks)) (int d))
                     [0..<nat F])
                = Inr (map (\<lambda>i. narrow t d (0 + i * (W * k)) (W * k)) [0..<nat F])"
      using slot by (intro sequence_results_map_Inr_upt) simp
    have "torch_cat (map (\<lambda>i. narrow t d (0 + i * (W * k)) (W * k)) [0..<nat F]) (int d)
            = Inr (pieces_at t d (\<lambda>i. 0 + i * (W * k)) (W * k) (nat F))"
      by (rule torch_cat_narrows[OF hd nF wd])
    also have "pieces_at t d (\<lambda>i. 0 + i * (W * k)) (W * k) (nat F) = narrow t d 0 (nat F * (W * k))"
      by (rule pieces_at_consecutive[OF hd])
    also have "\<dots> = t" using narrow_full[OF ok hd] size by (simp add: mult.assoc)
    finally have fin: "torch_cat (map (\<lambda>i. narrow t d (0 + i * (W * k)) (W * k)) [0..<nat F]) (int d) = Inr t" .
    have fin': "torch_cat (map (\<lambda>i. narrow t d (i * (W * k)) (W * k)) [0..<nat F]) (int d) = Inr t"
      using fin by simp
    show ?thesis
      using True unfolding reconstruct_combined_qkv_def seq1 by (simp add: seq2 fin')
  qed
qed

subsection \<open>What the elementary updates touch\<close>

lemma update_module_simps [simp]:
  "length (named_modules (update_module i f M)) = length (named_modules M)"
  "fst (named_modules (update_module i f M) ! j) = fst (named_modules M ! j)"
  "parameters (update_module i f M) = parameters M"
  "get_input_embeddings (update_module i f M) = get_input_embeddings M"
  by (cases "i < length (named_modules M)";
      auto simp: update_module_def nth_list_update list_update_beyond)+

lemma module_at_update_module:
  "module_at (update_module i f M) j =
     (if j = i \<and> i < length (named_modules M) then f (module_at M i) else module_at M j)"
  by (cases "i < length (named_modules M)")
     (auto simp: update_module_def module_at_def nth_list_update list_update_beyond)

lemma set_data_simps [simp]:
  "named_modules (set_data p t M) = named_modules M"
  "get_input_embeddings (set_data p t M) = get_input_embeddings M"
  "module_at (set_data p t M) j = module_at M j"
  "data (parameters (set_data p t M) q) = (if q = p then t else data (parameters M q))"
  by (auto simp: set_data_def module_at_def)

lemma set_tp_rank_simps [simp]:
  "named_modules (set_tp_rank p r M) = named_modules M"
  "get_input_embeddings (set_tp_rank p r M) = get_input_embeddings M"
  "module_at (set_tp_rank p r M) j = module_at M j"
  "data (parameters (set_tp_rank p r M) q) = data (parameters M q)"
  by (auto simp: set_tp_rank_def module_at_def)

lemma set_cuda_simps [simp]:
  "named_modules (set_cuda p M) = named_modules M"
  "get_input_embeddings (set_cuda p M) = get_input_embeddings M"
  "module_at (set_cuda p M) j = module_at M j"
  "data (parameters (set_cuda p M) q) = data (parameters M q)"
  by (auto simp: set_cuda_def module_at_def)

lemma postprocess_simps [simp]:
  "named_modules (postprocess r M) = named_modules M"
  "get_input_embeddings (postprocess r M) = get_input_embeddings M"
  "module_at (postprocess r M) j = module_at M j"
  "data (parameters (postprocess r M) q) = data (parameters M q)"
  by (auto simp: postprocess_def module_at_def)

lemma merge_dim_cong:
  "fst (named_modules M' ! i) = fst (named_modules M ! i) \<Longrightarrow> merge_dim tp M' i = merge_dim tp M i"
  by (simp add: merge_dim_def)

lemma name_update_mp_arguments [simp]:
  "j < length (named_modules M) \<Longrightarrow>
   fst (named_modules (update_mp_arguments W tp M) ! j) = fst (named_modules M ! j)"
  by (simp add: update_mp_arguments_def split: prod.splits)

lemma length_tensor_size [simp]: "length (tensor_size t) = tensor_dim t"
  by (cases t) simp_all

lemma slices_evenly_dim: "slices_evenly t F W d \<Longrightarrow> 1 \<le> tensor_dim t"
  by (cases t) (auto simp: slices_evenly_def)

lemma size_at_Inr: "i < tensor_dim t \<Longrightarrow> size_at t i = Inr (tensor_size t ! i)"
  by (simp add: size_at_def)

lemma slice_weight_none:
  "weight (module_at M i) = None \<Longrightarrow> slice_weight W r i F d M = (None, M)"
  by (simp add: slice_weight_def)

lemma slice_weight_ok:
  assumes w: "weight (module_at M i) = Some p"
      and mat: "tensor_dim (data (parameters M p)) = 2"
      and ev: "slices_evenly (data (parameters M p)) F W d"
      and W: "0 < W" and r: "r < W"
  shows "slice_weight W r i F (int d) M =
           (None, update_module i
                    (\<lambda>m. m\<lparr>attrs := (attrs m)
                        (''in_features'' \<mapsto> int (tensor_size (shard_of (data (parameters M p)) F W d r) ! 0),
                         ''out_features'' \<mapsto> int (tensor_size (shard_of (data (parameters M p)) F W d r) ! 1))\<rparr>)
                    (set_tp_rank p r (set_data p (shard_of (data (parameters M p)) F W d r) M)))"
proof -
  let ?s = "shard_of (data (parameters M p)) F W d r"
  have sl: "slice_data (data (parameters M p)) F W r (int d) = Inr ?s"
    by (rule slice_data_even[OF ev W r])
  have dim: "tensor_dim ?s = 2" using shard_of_shape[OF ev W r] mat by simp
  have s0: "size_at ?s 0 = Inr (tensor_size ?s ! 0)" and s1: "size_at ?s 1 = Inr (tensor_size ?s ! 1)"
    using dim by (simp_all add: size_at_Inr)
  show ?thesis
    unfolding slice_weight_def using w mat sl s0 s1 by (simp add: Let_def)
qed

lemma slice_bias_none:
  "bias (module_at M i) = None \<Longrightarrow> slice_bias W r i F b M = (None, M)"
  by (simp add: slice_bias_def)

lemma slice_bias_skip:
  "bias (module_at M i) = Some b \<Longrightarrow> slice_bias W r i F False M = (None, set_tp_rank b r M)"
  by (simp add: slice_bias_def)

lemma slice_bias_ok:
  assumes b: "bias (module_at M i) = Some b"
      and ev: "slices_evenly (data (parameters M b)) F W 0"
      and W: "0 < W" and r: "r < W"
  shows "slice_bias W r i F True M =
           (None, set_tp_rank b r (set_data b (shard_of (data (parameters M b)) F W 0 r) M))"
proof -
  have sl: "slice_data (data (parameters M b)) F W r 0 = Inr (shard_of (data (parameters M b)) F W 0 r)"
    using slice_data_even[OF ev W r] by simp
  show ?thesis
    unfolding slice_bias_def using b sl slices_evenly_dim[OF ev] by simp
qed

lemma same_frame_refl [simp]: "same_frame M M"
  by (simp add: same_frame_def)

lemma same_frame_trans: "same_frame M M' \<Longrightarrow> same_frame M' M'' \<Longrightarrow> same_frame M M''"
  by (auto simp: same_frame_def)

lemma same_frame_merge_dim:
  "same_frame M M' \<Longrightarrow> j < length (named_modules M) \<Longrightarrow> merge_dim tp M' j = merge_dim tp M j"
  by (simp add: same_frame_def merge_dim_def)

lemma same_frame_update_mp_arguments: "same_frame M (update_mp_arguments W tp M)"
  by (simp add: same_frame_def module_at_update_mp_arguments reduce_attrs_frame)

lemma same_frame_update_module:
  assumes "\<And>m. weight (f m) = weight m" "\<And>m. bias (f m) = bias m"
  shows "same_frame M (update_module i f M)"
  using assms by (simp add: same_frame_def module_at_update_module)

lemma same_frame_set_data [simp]: "same_frame M (set_data p t M)"
  by (simp add: same_frame_def)

lemma same_frame_set_tp_rank [simp]: "same_frame M (set_tp_rank p r M)"
  by (simp add: same_frame_def)

lemma same_frame_set_cuda [simp]: "same_frame M (set_cuda p M)"
  by (simp add: same_frame_def)

lemma same_frame_postprocess [simp]: "same_frame M (postprocess r M)"
  by (simp add: same_frame_def)

subsection \<open>The embedding step of parallelize\<close>

lemma tie_module_cases:
  "tie_module tp p i M = M \<or>
   (weight (module_at M i) = Some p \<and>
    tie_module tp p i M =
      update_module i
        (\<lambda>m. m\<lparr>mpu_attr := Some MpuContext,
                reversed := Some (is_reversed_param tp (fst (named_modules M ! i))),
                attrs := (attrs m)(''fusion_degree'' \<mapsto> 1),
                orig_module := Some (cls m), gather_output := Some True,
                cls := ColumnParallelLinear\<rparr>) M)"
  by (simp add: tie_module_def Let_def)

lemma tie_module_frame: "same_frame M (tie_module tp p i M)"
  using tie_module_cases[of tp p i M] by (auto simp: same_frame_def module_at_update_module)

lemma tie_module_parameters [simp]: "parameters (tie_module tp p i M) = parameters M"
  using tie_module_cases[of tp p i M] by auto

lemma tie_module_length [simp]:
  "length (named_modules (tie_module tp p i M)) = length (named_modules M)"
  using tie_module_cases[of tp p i M] by auto

lemma tie_module_other:
  "j \<noteq> i \<or> weight (module_at M i) \<noteq> Some p \<Longrightarrow> module_at (tie_module tp p i M) j = module_at M j"
  using tie_module_cases[of tp p i M] by (auto simp: module_at_update_module)

lemma tie_module_attrs:
  "a \<noteq> ''fusion_degree'' \<Longrightarrow> attrs (module_at (tie_module tp p i M) j) a = attrs (module_at M j) a"
  using tie_module_cases[of tp p i M] by (auto simp: module_at_update_module)

lemma tie_loop:
  "same_frame M (foldl (\<lambda>M i. tie_module tp p i M) M is) \<and>
   parameters (foldl (\<lambda>M i. tie_module tp p i M) M is) = parameters M \<and>
   (\<forall>j. weight (module_at M j) \<noteq> Some p \<longrightarrow>
        module_at (foldl (\<lambda>M i. tie_module tp p i M) M is) j = module_at M j) \<and>
   (\<forall>j a. a \<noteq> ''fusion_degree'' \<longrightarrow>
        attrs (module_at (foldl (\<lambda>M i. tie_module tp p i M) M is) j) a = attrs (module_at M j) a)"
proof (induction "is" arbitrary: M)
  case Nil
  then show ?case by simp
next
  case (Cons i "is")
  let ?M1 = "tie_module tp p i M"
  have f: "same_frame M ?M1" by (rule tie_module_frame)
  have w: "\<And>j. weight (module_at M j) \<noteq> Some p \<Longrightarrow> module_at ?M1 j = module_at M j"
  proof -
    fix j assume "weight (module_at M j) \<noteq> Some p"
    then show "module_at ?M1 j = module_at M j" by (cases "j = i") (simp_all add: tie_module_other)
  qed
  show ?case
    using Cons.IH[of ?M1] f w
    by (auto simp: tie_module_attrs intro: same_frame_trans)
qed

lemma plan_split:
  assumes "k < length (named_modules M)"
  shows "slicing_plan W tp M =
           (embedding_entries M @ concat (map (module_entries W tp M) [0..<k]))
           @ module_entries W tp M k
           @ concat (map (module_entries W tp M) [Suc k..<length (named_modules M)])"
proof -
  have "[0..<length (named_modules M)] = [0..<k] @ k # [Suc k..<length (named_modules M)]"
    using assms by (metis le_add1 less_imp_add_positive upt_add_eq_append upt_rec zero_le
        less_or_eq_imp_le upt_conv_Cons)
  then show ?thesis by (simp add: slicing_plan_def)
qed

lemma ready_embedding:
  assumes "round_trip_ready W tp M"
  obtains e pe where "get_input_embeddings M = Some e" "e < length (named_modules M)"
    "weight (module_at M e) = Some pe" "embedding_entries M = [(pe, 1, 0)]"
    "slices_evenly (data (parameters M pe)) 1 W 0"
proof -
  obtain e where e: "get_input_embeddings M = Some e" "e < length (named_modules M)"
    using assms by (auto simp: round_trip_ready_def split: option.splits)
  have ne: "embedding_entries M \<noteq> []" using assms by (simp add: round_trip_ready_def)
  then obtain pe where pe: "weight (module_at M e) = Some pe"
    using e by (auto simp: embedding_entries_def split: option.splits)
  then have ee: "embedding_entries M = [(pe, 1, 0)]" using e by (simp add: embedding_entries_def)
  have "list_all (\<lambda>(p, F, d). slices_evenly (data (parameters M p)) F W d) (slicing_plan W tp M)"
    using assms by (simp add: round_trip_ready_def)
  then have "slices_evenly (data (parameters M pe)) 1 W 0"
    unfolding slicing_plan_def ee by simp
  then show ?thesis using that e pe ee by blast
qed

lemma entries_weight:
  assumes "merge_dim tp M j \<noteq> None" and "weight (module_at M j) = Some p"
  shows "p \<in> fst ` set (module_entries W tp M j)"
proof (cases "is_column_parallel tp (fst (named_modules M ! j))")
  case True
  then show ?thesis using assms(2) by (simp add: module_entries_def Let_def)
next
  case False
  then have "is_row_parallel tp (fst (named_modules M ! j))"
    using assms(1) by (simp add: merge_dim_def Let_def split: if_splits)
  then show ?thesis using False assms(2) by (simp add: module_entries_def Let_def)
qed

lemma ready_not_tied:
  assumes ready: "round_trip_ready W tp M" and j: "j < length (named_modules M)"
      and m: "merge_dim tp M j \<noteq> None" and pe: "embedding_entries M = [(pe, F, d)]"
  shows "weight (module_at M j) \<noteq> Some pe"
proof
  assume w: "weight (module_at M j) = Some pe"
  have a: "pe \<in> fst ` set (module_entries W tp M j)" by (rule entries_weight[OF m w])
  have "distinct (map fst (slicing_plan W tp M))" using ready by (simp add: round_trip_ready_def)
  then have "fst ` set (embedding_entries M) \<inter> fst ` set (module_entries W tp M j) = {}"
    unfolding plan_split[OF j, of W tp] by (auto simp: image_Un)
  then show False using a pe by auto
qed

lemma chunked_weight_slice_data: "chunked_weight t W r = slice_data t 1 W r 0"
  by (simp add: chunked_weight_def slice_data_def split: sum.splits)

lemma parallelize_embedding_ok:
  assumes ready: "round_trip_ready W tp M" and r: "r < W"
  shows "\<exists>M2. parallelize_embedding W r tp (update_mp_arguments W tp M) = (None, M2)
              \<and> par_inv W r tp M 0 M2"
proof -
  obtain e pe where e: "get_input_embeddings M = Some e" "e < length (named_modules M)"
    and pe: "weight (module_at M e) = Some pe" and ee: "embedding_entries M = [(pe, 1, 0)]"
    and ev: "slices_evenly (data (parameters M pe)) 1 W 0"
    using ready_embedding[OF ready] by blast
  have W: "0 < W" using ready by (simp add: round_trip_ready_def)
  let ?M1 = "update_mp_arguments W tp M"
  let ?shard = "shard_of (data (parameters M pe)) 1 W 0 r"
  let ?M1' = "update_module e (\<lambda>m. m\<lparr>mpu_attr := Some MpuContext, orig_module := Some (cls m),
                                       cls := VocabParallelEmbedding\<rparr>)
               (set_tp_rank pe r (set_data pe ?shard ?M1))"
  let ?M2 = "foldl (\<lambda>M i. tie_module tp pe i M) ?M1' [0..<length (named_modules ?M1')]"
  have w1: "weight (module_at ?M1 e) = Some pe"
    using e pe by (simp add: module_at_update_mp_arguments reduce_attrs_frame)
  have cw: "chunked_weight (data (parameters ?M1 pe)) W r = Inr ?shard"
    using slice_data_even[OF ev W r] by (simp add: chunked_weight_slice_data)
  have res: "parallelize_embedding W r tp ?M1 = (None, ?M2)"
    unfolding parallelize_embedding_def using e w1 cw by (simp add: Let_def)
  have f1: "same_frame M ?M1'"
    using same_frame_update_mp_arguments[of M W tp]
    by (auto simp: same_frame_def module_at_update_module)
  have tl: "same_frame ?M1' ?M2" "parameters ?M2 = parameters ?M1'"
    "\<And>j. weight (module_at ?M1' j) \<noteq> Some pe \<Longrightarrow> module_at ?M2 j = module_at ?M1' j"
    "\<And>j a. a \<noteq> ''fusion_degree'' \<Longrightarrow> attrs (module_at ?M2 j) a = attrs (module_at ?M1' j) a"
    using tie_loop[of ?M1' tp pe "[0..<length (named_modules ?M1')]"] by blast+
  have frame: "same_frame M ?M2" by (rule same_frame_trans[OF f1 tl(1)])
  have at: "\<forall>j<length (named_modules M). \<forall>a. a \<notin> set engine_attributes \<longrightarrow>
            attrs (module_at ?M2 j) a = attrs (reduce_attrs W (update_attrs tp) (module_at M j)) a"
  proof (intro allI impI)
    fix j a assume j: "j < length (named_modules M)" and a: "a \<notin> set engine_attributes"
    then have "a \<noteq> ''fusion_degree''" by (auto simp: engine_attributes_def)
    then have "attrs (module_at ?M2 j) a = attrs (module_at ?M1' j) a" by (rule tl(4))
    also have "\<dots> = attrs (module_at ?M1 j) a" by (simp add: module_at_update_module)
    finally show "attrs (module_at ?M2 j) a = attrs (reduce_attrs W (update_attrs tp) (module_at M j)) a"
      using j by (simp add: module_at_update_mp_arguments)
  qed
  have un: "\<forall>j<length (named_modules M). 0 \<le> j \<and> merge_dim tp M j \<noteq> None \<longrightarrow>
            module_at ?M2 j = reduce_attrs W (update_attrs tp) (module_at M j)"
  proof (intro allI impI)
    fix j assume j: "j < length (named_modules M)" and m: "0 \<le> j \<and> merge_dim tp M j \<noteq> None"
    have nt: "weight (module_at M j) \<noteq> Some pe" using ready_not_tied[OF ready j _ ee] m by simp
    then have je: "j \<noteq> e" using pe by auto
    have "weight (module_at ?M1' j) = weight (module_at M j)"
      using f1 j by (simp add: same_frame_def)
    then have "module_at ?M2 j = module_at ?M1' j" using nt by (intro tl(3)) simp
    also have "\<dots> = module_at ?M1 j" using je by (simp add: module_at_update_module)
    finally show "module_at ?M2 j = reduce_attrs W (update_attrs tp) (module_at M j)"
      using j by (simp add: module_at_update_mp_arguments)
  qed
  have sh: "sharded_by W r M (embedding_entries M @ concat (map (module_entries W tp M) [0..<0])) ?M2"
    unfolding sharded_by_def tl(2) ee by simp
  show ?thesis
    using res frame at un sh unfolding par_inv_def by (intro exI[of _ ?M2]) simp
qed

lemma sharded_by_extend:
  assumes "sharded_by W r M L cur" and "map_of L p = None"
      and "\<And>q. data (parameters cur' q) =
                 (if q = p then shard_of (data (parameters M p)) F W d r else data (parameters cur q))"
  shows "sharded_by W r M (L @ [(p, F, d)]) cur'"
  using assms by (auto simp: sharded_by_def map_add_def split: option.splits)

lemma sharded_by_same:
  assumes "sharded_by W r M L cur" and "\<And>q. data (parameters cur' q) = data (parameters cur q)"
  shows "sharded_by W r M L cur'"
  using assms by (simp add: sharded_by_def)

lemma sharded_by_unsliced:
  "sharded_by W r M L cur \<Longrightarrow> map_of L p = None \<Longrightarrow> data (parameters cur p) = data (parameters M p)"
  by (simp add: sharded_by_def)

lemma touches_only_refl [simp]: "touches_only k names M M"
  by (simp add: touches_only_def)

lemma touches_only_trans:
  "touches_only k names M M' \<Longrightarrow> touches_only k names M' M'' \<Longrightarrow> touches_only k names M M''"
  by (auto simp: touches_only_def intro: same_frame_trans)

lemma touches_only_params:
  "named_modules M' = named_modules M \<Longrightarrow> get_input_embeddings M' = get_input_embeddings M \<Longrightarrow>
   touches_only k names M M'"
  by (simp add: touches_only_def same_frame_def module_at_def)

lemma touches_only_update_module:
  assumes "\<And>m. weight (f m) = weight m" "\<And>m. bias (f m) = bias m"
      and "\<And>m a. a \<notin> set names \<Longrightarrow> attrs (f m) a = attrs m a"
  shows "touches_only k names M (update_module k f M)"
  using assms by (simp add: touches_only_def same_frame_def module_at_update_module)

lemma slice_weight_step:
  assumes sh: "sharded_by W r M L M1" and W: "0 < W" and r: "r < W"
      and ok: "\<And>p. weight (module_at M1 k) = Some p \<Longrightarrow>
                 map_of L p = None \<and> tensor_dim (data (parameters M p)) = 2
                 \<and> slices_evenly (data (parameters M p)) F W d"
  shows "\<exists>M2. slice_weight W r k F (int d) M1 = (None, M2)
           \<and> touches_only k [''in_features'', ''out_features''] M1 M2
           \<and> reversed (module_at M2 k) = reversed (module_at M1 k)
           \<and> sharded_by W r M
                (L @ (case weight (module_at M1 k) of None \<Rightarrow> [] | Some p \<Rightarrow> [(p, F, d)])) M2"
proof (cases "weight (module_at M1 k)")
  case None
  then show ?thesis using sh by (simp add: slice_weight_none)
next
  case (Some p)
  have un: "data (parameters M1 p) = data (parameters M p)"
    using sharded_by_unsliced[OF sh] ok[OF Some] by simp
  let ?s = "shard_of (data (parameters M p)) F W d r"
  let ?M2 = "update_module k
               (\<lambda>m. m\<lparr>attrs := (attrs m)(''in_features'' \<mapsto> int (tensor_size ?s ! 0),
                                           ''out_features'' \<mapsto> int (tensor_size ?s ! 1))\<rparr>)
               (set_tp_rank p r (set_data p ?s M1))"
  have res: "slice_weight W r k F (int d) M1 = (None, ?M2)"
    using slice_weight_ok[OF Some _ _ W r, of F d] ok[OF Some] un by simp
  have t1: "touches_only k [''in_features'', ''out_features''] M1 (set_tp_rank p r (set_data p ?s M1))"
    by (intro touches_only_params) simp_all
  have t2: "touches_only k [''in_features'', ''out_features''] (set_tp_rank p r (set_data p ?s M1)) ?M2"
    by (intro touches_only_update_module) simp_all
  have t: "touches_only k [''in_features'', ''out_features''] M1 ?M2"
    by (rule touches_only_trans[OF t1 t2])
  have rv: "reversed (module_at ?M2 k) = reversed (module_at M1 k)"
    by (simp add: module_at_update_module)
  have "sharded_by W r M (L @ [(p, F, d)]) ?M2"
    using ok[OF Some] by (intro sharded_by_extend[OF sh]) simp_all
  then show ?thesis using res t rv Some by simp
qed

lemma slice_bias_step:
  assumes sh: "sharded_by W r M L M2" and W: "0 < W" and r: "r < W"
      and ok: "\<And>b. bias (module_at M2 k) = Some b \<Longrightarrow>
                 map_of L b = None \<and> slices_evenly (data (parameters M b)) F W 0"
  shows "\<exists>M3. slice_bias W r k F True M2 = (None, M3)
           \<and> named_modules M3 = named_modules M2 \<and> get_input_embeddings M3 = get_input_embeddings M2
           \<and> sharded_by W r M
                (L @ (case bias (module_at M2 k) of None \<Rightarrow> [] | Some b \<Rightarrow> [(b, F, 0)])) M3"
proof (cases "bias (module_at M2 k)")
  case None
  then show ?thesis using sh by (simp add: slice_bias_none)
next
  case (Some b)
  have un: "data (parameters M2 b) = data (parameters M b)"
    using sharded_by_unsliced[OF sh] ok[OF Some] by simp
  let ?s = "shard_of (data (parameters M b)) F W 0 r"
  have res: "slice_bias W r k F True M2 = (None, set_tp_rank b r (set_data b ?s M2))"
    using slice_bias_ok[OF Some _ W r, of F] ok[OF Some] un by simp
  have "sharded_by W r M (L @ [(b, F, 0)]) (set_tp_rank b r (set_data b ?s M2))"
    using ok[OF Some] by (intro sharded_by_extend[OF sh]) simp_all
  then show ?thesis using res Some by simp
qed

lemma slice_bias_step_skip:
  assumes sh: "sharded_by W r M L M2"
  shows "\<exists>M3. slice_bias W r k F False M2 = (None, M3)
           \<and> named_modules M3 = named_modules M2 \<and> get_input_embeddings M3 = get_input_embeddings M2
           \<and> sharded_by W r M L M3"
proof (cases "bias (module_at M2 k)")
  case None
  then show ?thesis using sh by (simp add: slice_bias_none)
next
  case (Some b)
  have "sharded_by W r M L (set_tp_rank b r M2)" by (rule sharded_by_same[OF sh]) simp
  then show ?thesis using Some by (simp add: slice_bias_skip)
qed

lemma touches_only_mono:
  "touches_only k names M M' \<Longrightarrow> set names \<subseteq> set names' \<Longrightarrow> touches_only k names' M M'"
  by (auto simp: touches_only_def)

lemma slice_step:
  assumes sh: "sharded_by W r M L cur" and W: "0 < W" and r: "r < W"
      and k: "k < length (named_modules cur)"
      and d: "int d = (if \<not> rvs then d0 else \<bar>d0 - 1\<bar>)"
      and okw: "\<And>p. weight (module_at cur k) = Some p \<Longrightarrow>
                 map_of L p = None \<and> tensor_dim (data (parameters M p)) = 2
                 \<and> slices_evenly (data (parameters M p)) F W d"
      and okb: "\<And>b. do_bias \<Longrightarrow> bias (module_at cur k) = Some b \<Longrightarrow>
                 map_of (L @ (case weight (module_at cur k) of None \<Rightarrow> [] | Some p \<Rightarrow> [(p, F, d)])) b = None
                 \<and> slices_evenly (data (parameters M b)) F W 0"
  shows "\<exists>cur'. slice W r k rvs F do_bias d0 cur = (None, cur')
           \<and> touches_only k [''fusion_degree'', ''in_features'', ''out_features''] cur cur'
           \<and> attrs (module_at cur' k) ''fusion_degree'' = Some F
           \<and> reversed (module_at cur' k) = Some rvs
           \<and> sharded_by W r M
                (L @ (case weight (module_at cur k) of None \<Rightarrow> [] | Some p \<Rightarrow> [(p, F, d)])
                   @ (if do_bias then (case bias (module_at cur k) of None \<Rightarrow> [] | Some b \<Rightarrow> [(b, F, 0)])
                      else [])) cur'"
proof -
  let ?upd = "\<lambda>m. m\<lparr>mpu_attr := Some MpuContext, reversed := Some rvs,
                      attrs := (attrs m)(''fusion_degree'' \<mapsto> F),
                      orig_module := Some (cls m), gather_output := Some False\<rparr>"
  let ?M1 = "update_module k ?upd cur"
  let ?we = "case weight (module_at cur k) of None \<Rightarrow> [] | Some p \<Rightarrow> [(p, F, d)]"
  have t0: "touches_only k [''fusion_degree'', ''in_features'', ''out_features''] cur ?M1"
    by (intro touches_only_update_module) simp_all
  have m1: "weight (module_at ?M1 k) = weight (module_at cur k)"
           "bias (module_at ?M1 k) = bias (module_at cur k)"
           "attrs (module_at ?M1 k) ''fusion_degree'' = Some F"
           "reversed (module_at ?M1 k) = Some rvs"
    using k by (simp_all add: module_at_update_module)
  have sh1: "sharded_by W r M L ?M1" by (rule sharded_by_same[OF sh]) simp
  obtain M2 where w: "slice_weight W r k F (int d) ?M1 = (None, M2)"
      and t1: "touches_only k [''in_features'', ''out_features''] ?M1 M2"
      and rv: "reversed (module_at M2 k) = reversed (module_at ?M1 k)"
      and sh2: "sharded_by W r M (L @ ?we) M2"
    using slice_weight_step[OF sh1 W r, of k F d] okw unfolding m1 by blast
  have m2: "bias (module_at M2 k) = bias (module_at cur k)"
           "attrs (module_at M2 k) ''fusion_degree'' = Some F"
    using t1 m1 k by (auto simp: touches_only_def same_frame_def)
  have t01: "touches_only k [''fusion_degree'', ''in_features'', ''out_features''] cur M2"
    by (rule touches_only_trans[OF t0 touches_only_mono[OF t1]]) simp
  show ?thesis
  proof (cases do_bias)
    case True
    obtain M3 where b: "slice_bias W r k F True M2 = (None, M3)"
        and nm: "named_modules M3 = named_modules M2" "get_input_embeddings M3 = get_input_embeddings M2"
        and sh3: "sharded_by W r M
                    ((L @ ?we) @ (case bias (module_at M2 k) of None \<Rightarrow> [] | Some b \<Rightarrow> [(b, F, 0)])) M3"
      using slice_bias_step[OF sh2 W r, of k F] okb[OF True] unfolding m2 by blast
    have t3: "touches_only k [''fusion_degree'', ''in_features'', ''out_features''] M2 M3"
      by (rule touches_only_params[OF nm])
    have m3: "module_at M3 k = module_at M2 k" using nm by (simp add: module_at_def)
    have "slice W r k rvs F do_bias d0 cur = (None, M3)"
      unfolding slice_def Let_def d[symmetric] using w b True by simp
    then show ?thesis
      using touches_only_trans[OF t01 t3] m3 m2 rv m1 sh3 True by auto
  next
    case False
    obtain M3 where b: "slice_bias W r k F False M2 = (None, M3)"
        and nm: "named_modules M3 = named_modules M2" "get_input_embeddings M3 = get_input_embeddings M2"
        and sh3: "sharded_by W r M (L @ ?we) M3"
      using slice_bias_step_skip[OF sh2, of k F] by blast
    have t3: "touches_only k [''fusion_degree'', ''in_features'', ''out_features''] M2 M3"
      by (rule touches_only_params[OF nm])
    have m3: "module_at M3 k = module_at M2 k" using nm by (simp add: module_at_def)
    have "slice W r k rvs F do_bias d0 cur = (None, M3)"
      unfolding slice_def Let_def d[symmetric] using w b False by simp
    then show ?thesis
      using touches_only_trans[OF t01 t3] m3 m2 rv m1 sh3 False by auto
  qed
qed

lemma touches_only_frame: "touches_only k names M M' \<Longrightarrow> same_frame M M'"
  by (simp add: touches_only_def)

lemma map_of_None_if_notin: "p \<notin> fst ` set L \<Longrightarrow> map_of L p = None"
  by (simp add: map_of_eq_None_iff)

lemma distinct_fst_append3:
  "distinct (map fst (A @ B @ C)) \<Longrightarrow> fst ` set A \<inter> fst ` set B = {}"
  by auto

lemma distinct_fst_append3_mid:
  "distinct (map fst (A @ B @ C)) \<Longrightarrow> distinct (map fst B)"
  by simp

lemma list_all_append3_mid:
  "list_all P (A @ B @ C) \<Longrightarrow> x \<in> set B \<Longrightarrow> P x"
  by (simp add: list_all_iff)

lemma slice_inv_step:
  assumes ready: "round_trip_ready W tp M" and r: "r < W"
      and k: "k < length (named_modules M)"
      and inv: "par_inv W r tp M k cur"
      and md: "merge_dim tp M k \<noteq> None"
      and ent: "module_entries W tp M k =
                  (case weight (module_at M k) of None \<Rightarrow> [] | Some p \<Rightarrow> [(p, F, d)])
                  @ (if do_bias then (case bias (module_at M k) of None \<Rightarrow> [] | Some b \<Rightarrow> [(b, F, 0)])
                     else [])"
      and F: "fusion_of W tp M k = F"
      and rvs: "rvs = is_reversed_param tp (fst (named_modules M ! k))"
      and d: "int d = (if \<not> rvs then d0 else \<bar>d0 - 1\<bar>)"
  shows "\<exists>cur'. slice W r k rvs F do_bias d0 cur = (None, cur')
           \<and> par_inv W r tp M (Suc k) (update_module k (\<lambda>m. m\<lparr>cls := c\<rparr>) cur')"
proof -
  let ?L = "embedding_entries M @ concat (map (module_entries W tp M) [0..<k])"
  let ?rest = "concat (map (module_entries W tp M) [Suc k..<length (named_modules M)])"
  have W: "0 < W" using ready by (simp add: round_trip_ready_def)
  have sf: "same_frame M cur" and sh: "sharded_by W r M ?L cur"
    using inv by (simp_all add: par_inv_def)
  have kc: "k < length (named_modules cur)" using sf k by (simp add: same_frame_def)
  have wk: "weight (module_at cur k) = weight (module_at M k)"
    and bk: "bias (module_at cur k) = bias (module_at M k)"
    using sf k by (simp_all add: same_frame_def)
  have plan: "slicing_plan W tp M = ?L @ module_entries W tp M k @ ?rest"
    by (rule plan_split[OF k])
  have dist: "distinct (map fst (?L @ module_entries W tp M k @ ?rest))"
    using ready unfolding round_trip_ready_def plan by simp
  have ev: "list_all (\<lambda>(p, F, d). slices_evenly (data (parameters M p)) F W d)
              (?L @ module_entries W tp M k @ ?rest)"
    using ready unfolding round_trip_ready_def plan by simp
  have d2: "\<And>p. weight (module_at M k) = Some p \<Longrightarrow> tensor_dim (data (parameters M p)) = 2"
  proof -
    fix p assume p: "weight (module_at M k) = Some p"
    have "list_all (\<lambda>i. case weight (module_at M i) of
                         None \<Rightarrow> True
                       | Some p \<Rightarrow> merge_dim tp M i = None \<or> tensor_dim (data (parameters M p)) = 2)
           [0..<length (named_modules M)]"
      using ready by (simp add: round_trip_ready_def)
    then have "case weight (module_at M k) of
                         None \<Rightarrow> True
                       | Some p \<Rightarrow> merge_dim tp M k = None \<or> tensor_dim (data (parameters M p)) = 2"
      using k by (simp add: list_all_iff)
    then show "tensor_dim (data (parameters M p)) = 2"
      using p md by simp
  qed
  have notinL: "\<And>q. q \<in> fst ` set (module_entries W tp M k) \<Longrightarrow> map_of ?L q = None"
  proof -
    fix q assume q: "q \<in> fst ` set (module_entries W tp M k)"
    have "fst ` set ?L \<inter> fst ` set (module_entries W tp M k) = {}"
      by (rule distinct_fst_append3[OF dist])
    then have "q \<notin> fst ` set ?L" using q by blast
    then show "map_of ?L q = None" by (rule map_of_None_if_notin)
  qed
  have okw: "\<And>p. weight (module_at cur k) = Some p \<Longrightarrow>
                 map_of ?L p = None \<and> tensor_dim (data (parameters M p)) = 2
                 \<and> slices_evenly (data (parameters M p)) F W d"
  proof -
    fix p assume "weight (module_at cur k) = Some p"
    then have p: "weight (module_at M k) = Some p" using wk by simp
    have mem: "(p, F, d) \<in> set (module_entries W tp M k)"
      by (simp only: ent p option.case set_append Un_iff list.set insert_iff simp_thms)
    then have "p \<in> fst ` set (module_entries W tp M k)" by force
    then have a: "map_of ?L p = None" by (rule notinL)
    have b: "slices_evenly (data (parameters M p)) F W d"
      using list_all_append3_mid[OF ev mem] by simp
    show "map_of ?L p = None \<and> tensor_dim (data (parameters M p)) = 2
                 \<and> slices_evenly (data (parameters M p)) F W d"
      using a b d2[OF p] by simp
  qed
  have okb: "\<And>b. do_bias \<Longrightarrow> bias (module_at cur k) = Some b \<Longrightarrow>
                 map_of (?L @ (case weight (module_at cur k) of None \<Rightarrow> [] | Some p \<Rightarrow> [(p, F, d)])) b = None
                 \<and> slices_evenly (data (parameters M b)) F W 0"
  proof -
    fix b assume db: do_bias and "bias (module_at cur k) = Some b"
    then have b: "bias (module_at M k) = Some b" using bk by simp
    have mem: "(b, F, 0) \<in> set (module_entries W tp M k)"
      by (simp only: ent b db if_True option.case set_append Un_iff list.set insert_iff simp_thms)
    then have "b \<in> fst ` set (module_entries W tp M k)" by force
    then have a: "map_of ?L b = None" by (rule notinL)
    have dk: "distinct (map fst (module_entries W tp M k))"
      by (rule distinct_fst_append3_mid[OF dist])
    have ne: "\<And>p. weight (module_at M k) = Some p \<Longrightarrow> p \<noteq> b"
    proof -
      fix p assume p: "weight (module_at M k) = Some p"
      have "distinct (map fst ([(p, F, d)] @ [(b, F, 0)]))"
        using dk by (simp only: ent p b db if_True option.case)
      then show "p \<noteq> b" by simp
    qed
    have ev0: "slices_evenly (data (parameters M b)) F W 0"
      using list_all_append3_mid[OF ev mem] by simp
    show "map_of (?L @ (case weight (module_at cur k) of None \<Rightarrow> [] | Some p \<Rightarrow> [(p, F, d)])) b = None
                 \<and> slices_evenly (data (parameters M b)) F W 0"
      using a ne ev0 unfolding wk by (auto simp: map_add_def split: option.splits)
  qed
  obtain cur' where sl: "slice W r k rvs F do_bias d0 cur = (None, cur')"
      and t: "touches_only k [''fusion_degree'', ''in_features'', ''out_features''] cur cur'"
      and fa: "attrs (module_at cur' k) ''fusion_degree'' = Some F"
      and rv: "reversed (module_at cur' k) = Some rvs"
      and sh': "sharded_by W r M
                (?L @ (case weight (module_at cur k) of None \<Rightarrow> [] | Some p \<Rightarrow> [(p, F, d)])
                   @ (if do_bias then (case bias (module_at cur k) of None \<Rightarrow> [] | Some b \<Rightarrow> [(b, F, 0)])
                      else [])) cur'"
    using slice_step[OF sh W r kc d okw okb] by blast
  let ?cur2 = "update_module k (\<lambda>m. m\<lparr>cls := c\<rparr>) cur'"
  have t2: "touches_only k [''fusion_degree'', ''in_features'', ''out_features''] cur' ?cur2"
    by (rule touches_only_update_module) simp_all
  have tt: "touches_only k [''fusion_degree'', ''in_features'', ''out_features''] cur ?cur2"
    by (rule touches_only_trans[OF t t2])
  have kc': "k < length (named_modules cur')"
    using touches_only_frame[OF t] kc by (simp add: same_frame_def)
  have c1: "same_frame M ?cur2"
    by (rule same_frame_trans[OF sf touches_only_frame[OF tt]])
  have other: "\<And>j. j \<noteq> k \<Longrightarrow> module_at ?cur2 j = module_at cur j"
    using tt by (simp add: touches_only_def)
  have keep: "\<And>a. a \<notin> set engine_attributes \<Longrightarrow> attrs (module_at ?cur2 k) a = attrs (module_at cur k) a"
    using tt by (simp add: touches_only_def engine_attributes_def)
  have c2: "\<forall>j<length (named_modules M). \<forall>a. a \<notin> set engine_attributes \<longrightarrow>
            attrs (module_at ?cur2 j) a = attrs (reduce_attrs W (update_attrs tp) (module_at M j)) a"
  proof (intro allI impI)
    fix j a assume j: "j < length (named_modules M)" and a: "a \<notin> set engine_attributes"
    have "attrs (module_at ?cur2 j) a = attrs (module_at cur j) a"
      using other[of j] keep[OF a] by (cases "j = k") simp_all
    then show "attrs (module_at ?cur2 j) a = attrs (reduce_attrs W (update_attrs tp) (module_at M j)) a"
      using inv j a by (simp add: par_inv_def)
  qed
  have c3: "\<forall>j<length (named_modules M). Suc k \<le> j \<and> merge_dim tp M j \<noteq> None \<longrightarrow>
            module_at ?cur2 j = reduce_attrs W (update_attrs tp) (module_at M j)"
  proof (intro allI impI)
    fix j assume j: "j < length (named_modules M)" and h: "Suc k \<le> j \<and> merge_dim tp M j \<noteq> None"
    then have "module_at ?cur2 j = module_at cur j" using other[of j] by simp
    then show "module_at ?cur2 j = reduce_attrs W (update_attrs tp) (module_at M j)"
      using inv j h by (simp add: par_inv_def)
  qed
  have c4: "\<forall>j<Suc k. merge_dim tp M j \<noteq> None \<longrightarrow>
            attrs (module_at ?cur2 j) ''fusion_degree'' = Some (fusion_of W tp M j)
            \<and> reversed (module_at ?cur2 j) = Some (is_reversed_param tp (fst (named_modules M ! j)))"
  proof (intro allI impI)
    fix j assume j: "j < Suc k" and h: "merge_dim tp M j \<noteq> None"
    show "attrs (module_at ?cur2 j) ''fusion_degree'' = Some (fusion_of W tp M j)
            \<and> reversed (module_at ?cur2 j) = Some (is_reversed_param tp (fst (named_modules M ! j)))"
    proof (cases "j = k")
      case True
      then show ?thesis using fa rv kc' F rvs by (simp add: module_at_update_module)
    next
      case False
      then have "j < k" using j by simp
      then show ?thesis using inv h other[OF False] by (simp add: par_inv_def)
    qed
  qed
  have "sharded_by W r M (?L @ module_entries W tp M k) cur'"
    using sh' by (simp only: ent wk bk)
  then have "sharded_by W r M (?L @ module_entries W tp M k) ?cur2"
    by (rule sharded_by_same) simp
  then have c5: "sharded_by W r M
      (embedding_entries M @ concat (map (module_entries W tp M) [0..<Suc k])) ?cur2"
    by simp
  show ?thesis
    using sl c1 c2 c3 c4 c5 unfolding par_inv_def by (intro exI[of _ cur']) simp
qed

lemma parallelize_module_step:
  assumes ready: "round_trip_ready W tp M" and r: "r < W"
      and k: "k < length (named_modules M)"
      and inv: "par_inv W r tp M k cur"
  shows "\<exists>cur'. parallelize_module W r tp k cur = (None, cur') \<and> par_inv W r tp M (Suc k) cur'"
proof -
  let ?name = "fst (named_modules M ! k)"
  have sf: "same_frame M cur" using inv by (simp add: par_inv_def)
  have nm: "fst (named_modules cur ! k) = ?name" using sf k by (simp add: same_frame_def)
  consider (col) "is_column_parallel tp ?name"
    | (row) "\<not> is_column_parallel tp ?name" "is_row_parallel tp ?name"
    | (none) "\<not> is_column_parallel tp ?name" "\<not> is_row_parallel tp ?name" by blast
  then show ?thesis
  proof cases
    case col
    then have md: "merge_dim tp M k \<noteq> None" by (simp add: merge_dim_def)
    let ?F = "fusion_of W tp M k"
    let ?rvs = "is_reversed_param tp ?name"
    let ?d = "if ?rvs then 1 else 0 :: nat"
    have mk: "module_at cur k = reduce_attrs W (update_attrs tp) (module_at M k)"
      using inv k md by (simp add: par_inv_def)
    have Fq: "get_combined_qkv_degree tp ?name (module_at cur k) = ?F"
      using col mk by (simp add: fusion_of_def)
    have ent: "module_entries W tp M k =
                  (case weight (module_at M k) of None \<Rightarrow> [] | Some p \<Rightarrow> [(p, ?F, ?d)])
                  @ (if True then (case bias (module_at M k) of None \<Rightarrow> [] | Some b \<Rightarrow> [(b, ?F, 0)])
                     else [])"
      using col by (simp add: module_entries_def fusion_of_def Let_def split: option.splits)
    have d: "int ?d = (if \<not> ?rvs then 0 else \<bar>0 - 1\<bar>)" by simp
    obtain cur' where sl: "slice W r k ?rvs ?F True 0 cur = (None, cur')"
      and inv': "par_inv W r tp M (Suc k) (update_module k (\<lambda>m. m\<lparr>cls := ColumnParallelLinear\<rparr>) cur')"
      using slice_inv_step[OF ready r k inv md ent refl refl d, of ColumnParallelLinear] by blast
    have "parallelize_module W r tp k cur =
            (None, update_module k (\<lambda>m. m\<lparr>cls := ColumnParallelLinear\<rparr>) cur')"
      unfolding parallelize_module_def Let_def nm column_slice_def Fq using col sl by simp
    then show ?thesis using inv' by blast
  next
    case row
    then have md: "merge_dim tp M k \<noteq> None" by (simp add: merge_dim_def)
    let ?rvs = "is_reversed_param tp ?name"
    let ?d = "if ?rvs then 0 else 1 :: nat"
    have Fo: "fusion_of W tp M k = 1" using row by (simp add: fusion_of_def)
    have ent: "module_entries W tp M k =
                  (case weight (module_at M k) of None \<Rightarrow> [] | Some p \<Rightarrow> [(p, 1, ?d)])
                  @ (if False then (case bias (module_at M k) of None \<Rightarrow> [] | Some b \<Rightarrow> [(b, 1, 0)])
                     else [])"
      using row by (simp add: module_entries_def Let_def split: option.splits)
    have d: "int ?d = (if \<not> ?rvs then 1 else \<bar>1 - 1\<bar>)" by simp
    obtain cur' where sl: "slice W r k ?rvs 1 False 1 cur = (None, cur')"
      and inv': "par_inv W r tp M (Suc k) (update_module k (\<lambda>m. m\<lparr>cls := RowParallelLinear\<rparr>) cur')"
      using slice_inv_step[OF ready r k inv md ent Fo refl d, of RowParallelLinear] by blast
    have "parallelize_module W r tp k cur =
            (None, update_module k (\<lambda>m. m\<lparr>cls := RowParallelLinear\<rparr>) cur')"
      unfolding parallelize_module_def Let_def nm row_slice_def using row sl by simp
    then show ?thesis using inv' by blast
  next
    case none
    then have md: "merge_dim tp M k = None" by (simp add: merge_dim_def)
    have ent: "module_entries W tp M k = []" using none by (simp add: module_entries_def)
    have res: "parallelize_module W r tp k cur = (None, cur)"
      unfolding parallelize_module_def Let_def nm using none by simp
    have "par_inv W r tp M (Suc k) cur"
      using inv md ent unfolding par_inv_def
      by (auto simp: less_Suc_eq)
    then show ?thesis using res by blast
  qed
qed

lemma for_each_upt_invariant:
  assumes step: "\<And>k s. k < n \<Longrightarrow> I k s \<Longrightarrow> \<exists>s'. body k s = (None, s') \<and> I (Suc k) s'"
      and "I k s" and "k \<le> n"
  shows "\<exists>s'. for_each body [k..<n] s = (None, s') \<and> I n s'"
  using assms(2,3)
proof (induction "n - k" arbitrary: k s)
  case 0
  then show ?case by simp
next
  case (Suc m)
  then have kn: "k < n" by simp
  obtain s1 where b: "body k s = (None, s1)" and i: "I (Suc k) s1"
    using step[OF kn Suc.prems(1)] by blast
  have "m = n - Suc k" using Suc.hyps(2) by simp
  from Suc.hyps(1)[OF this i] kn
  obtain s' where "for_each body [Suc k..<n] s1 = (None, s')" "I n s'" by auto
  then show ?case using b kn by (simp add: upt_conv_Cons)
qed

lemma parallelize_ok:
  assumes ready: "round_trip_ready W tp M" and r: "r < W"
  shows "\<exists>cur. parallelize W r tp M = (None, cur) \<and> parallelized W r tp M cur"
proof -
  let ?n = "length (named_modules M)"
  obtain M2 where e: "parallelize_embedding W r tp (update_mp_arguments W tp M) = (None, M2)"
      and i0: "par_inv W r tp M 0 M2"
    using parallelize_embedding_ok[OF ready r] by blast
  have len: "length (named_modules M2) = ?n" using i0 by (simp add: par_inv_def same_frame_def)
  obtain M3 where m: "for_each (parallelize_module W r tp) [0..<?n] M2 = (None, M3)"
      and i1: "par_inv W r tp M ?n M3"
    using for_each_upt_invariant[where I = "par_inv W r tp M" and body = "parallelize_module W r tp"
        and n = ?n and k = 0 and s = M2, OF parallelize_module_step[OF ready r] i0]
    by blast
  let ?M4 = "update_module 0 (\<lambda>m. m\<lparr>mpu_attr := Some MpuContext\<rparr>) (postprocess r M3)"
  have res: "parallelize W r tp M = (None, ?M4)"
    unfolding parallelize_def Let_def parallelize_modules_def using e m len by simp
  have sf3: "same_frame M M3" using i1 by (simp add: par_inv_def)
  have sf4: "same_frame M3 ?M4"
    by (auto simp: same_frame_def module_at_update_module)
  have at: "\<And>j. attrs (module_at ?M4 j) = attrs (module_at M3 j)"
           "\<And>j. reversed (module_at ?M4 j) = reversed (module_at M3 j)"
    by (simp_all add: module_at_update_module)
  have sh3: "sharded_by W r M (slicing_plan W tp M) M3"
    using i1 by (simp add: par_inv_def slicing_plan_def)
  have sh: "sharded_by W r M (slicing_plan W tp M) ?M4"
    by (rule sharded_by_same[OF sh3]) simp
  have "parallelized W r tp M ?M4"
    unfolding parallelized_def at
    using same_frame_trans[OF sf3 sf4] sh i1 by (simp add: par_inv_def)
  then show ?thesis using res by blast
qed

lemma keeps_refl [simp]: "keeps M M"
  by (simp add: keeps_def)

lemma keeps_trans: "keeps M M' \<Longrightarrow> keeps M' M'' \<Longrightarrow> keeps M M''"
  unfolding keeps_def using same_frame_trans by fastforce

lemma keeps_params:
  "named_modules M' = named_modules M \<Longrightarrow> get_input_embeddings M' = get_input_embeddings M \<Longrightarrow>
   keeps M M'"
  by (simp add: keeps_def same_frame_def module_at_def)

lemma keeps_update_module:
  assumes "\<And>m. weight (f m) = weight m" "\<And>m. bias (f m) = bias m"
      and "\<And>m. reversed (f m) = reversed m"
      and "\<And>m a. a \<notin> set [''in_features'', ''out_features'', ''nx'', ''nf'', ''num_embeddings''] \<Longrightarrow>
                 attrs (f m) a = attrs m a"
  shows "keeps M (update_module i f M)"
  using assms
  by (simp add: keeps_def same_frame_def module_at_update_module engine_attributes_def)

lemma rank_state_keeps:
  assumes "rank_state W r tp M L cur" and "keeps cur cur'" and "sharded_by W r M L' cur'"
  shows "rank_state W r tp M L' cur'"
proof -
  have sf: "same_frame M cur'"
    using assms(1,2) same_frame_trans by (auto simp: rank_state_def keeps_def)
  show ?thesis
    using assms sf by (simp add: rank_state_def keeps_def)
qed

lemma restore_class_simps [simp]:
  "weight (restore_class m) = weight m" "bias (restore_class m) = bias m"
  "attrs (restore_class m) = attrs m" "reversed (restore_class m) = reversed m"
  by (simp_all add: restore_class_def split: option.splits)

subsection \<open>The collectives\<close>

lemma map_by_index: "map f xs = map (\<lambda>r. f (xs ! r)) [0..<length xs]"
  by (rule nth_equalityI) simp_all

lemma local_step_map:
  assumes "\<And>r. r < length Ms \<Longrightarrow> f (Ms ! r) = Inr (g r)"
  shows "local_step f Ms = Inr (map g [0..<length Ms])"
proof -
  have "map f Ms = map (\<lambda>r. f (Ms ! r)) [0..<length Ms]"
    by (rule map_by_index)
  then have "local_step f Ms = sequence_results (map (\<lambda>r. f (Ms ! r)) [0..<length Ms])"
    by (simp add: local_step_def)
  also have "\<dots> = Inr (map g [0..<length Ms])"
    by (rule sequence_results_map_Inr_upt) (rule assms)
  finally show ?thesis .
qed

lemma all_gather_step_none:
  assumes "\<And>r. r < length Ms \<Longrightarrow> c (Ms ! r) = Inr None"
  shows "all_gather_step c k Ms = Inr Ms"
proof -
  have "map c Ms = map (\<lambda>r. c (Ms ! r)) [0..<length Ms]"
    by (rule map_by_index)
  then have "sequence_results (map c Ms) = sequence_results (map (\<lambda>r. c (Ms ! r)) [0..<length Ms])"
    by simp
  also have "\<dots> = Inr (map (\<lambda>r. None) [0..<length Ms])"
    by (rule sequence_results_map_Inr_upt) (rule assms)
  finally have "sequence_results (map c Ms) = Inr (map (\<lambda>r. None) [0..<length Ms])" .
  then show ?thesis by (simp add: all_gather_step_def list_all_iff)
qed

lemma all_gather_step_some:
  assumes c: "\<And>r. r < length Ms \<Longrightarrow> c (Ms ! r) = Inr (Some (ts r))"
      and sh: "\<And>r. r < length Ms \<Longrightarrow> same_shape (ts r) (ts 0)"
      and k: "\<And>r. r < length Ms \<Longrightarrow> k (map ts [0..<length Ms]) (Ms ! r) = Inr (g r)"
      and ne: "0 < length Ms"
  shows "all_gather_step c k Ms = Inr (map g [0..<length Ms])"
proof -
  let ?n = "length Ms"
  let ?cs = "map (\<lambda>r. Some (ts r)) [0..<?n]"
  have "map c Ms = map (\<lambda>r. c (Ms ! r)) [0..<?n]"
    by (rule map_by_index)
  then have "sequence_results (map c Ms) = sequence_results (map (\<lambda>r. c (Ms ! r)) [0..<?n])"
    by simp
  also have "\<dots> = Inr ?cs"
    by (rule sequence_results_map_Inr_upt) (rule c)
  finally have s: "sequence_results (map c Ms) = Inr ?cs" .
  have a: "\<not> list_all (\<lambda>c. c = None) ?cs" using ne by (auto simp: list_all_iff)
  have b: "list_all (\<lambda>c. c \<noteq> None) ?cs" by (simp add: list_all_iff)
  have h: "hd ?cs = Some (ts 0)" using ne by (simp add: hd_map upt_conv_Cons)
  have d: "list_all (\<lambda>c. same_shape (the c) (the (hd ?cs))) ?cs"
    unfolding h using sh by (simp add: list_all_iff)
  have t: "map the ?cs = map ts [0..<?n]" by simp
  have "map (k (map ts [0..<?n])) Ms = map (\<lambda>r. k (map ts [0..<?n]) (Ms ! r)) [0..<?n]"
    by (rule map_by_index)
  then have "sequence_results (map (k (map ts [0..<?n])) Ms)
               = sequence_results (map (\<lambda>r. k (map ts [0..<?n]) (Ms ! r)) [0..<?n])"
    by simp
  also have "\<dots> = Inr (map g [0..<?n])"
    by (rule sequence_results_map_Inr_upt) (rule k)
  finally have e: "sequence_results (map (k (map ts [0..<?n])) Ms) = Inr (map g [0..<?n])" .
  have "all_gather_step c k Ms = sequence_results (map (k (map the ?cs)) Ms)"
    unfolding all_gather_step_def s using a b d by (simp only: sum.case if_False if_True simp_thms)
  then show ?thesis unfolding t using e by simp
qed

lemma group_stateI:
  assumes "\<And>r. r < W \<Longrightarrow> rank_state W r tp M L (g r)"
  shows "group_state W tp M L (map g [0..<W])"
  using assms by (simp add: group_state_def)

lemma group_state_nth:
  "group_state W tp M L Ms \<Longrightarrow> r < W \<Longrightarrow> rank_state W r tp M L (Ms ! r)"
  by (simp add: group_state_def)

lemma group_state_length: "group_state W tp M L Ms \<Longrightarrow> length Ms = W"
  by (simp add: group_state_def)

subsection \<open>The integers come back\<close>

lemma deparallel_update_mp_arguments_simps [simp]:
  "parameters (deparallel_update_mp_arguments W tp M) = parameters M"
  "get_input_embeddings (deparallel_update_mp_arguments W tp M) = get_input_embeddings M"
  by (simp_all add: deparallel_update_mp_arguments_def)

lemma name_deparallel_update_mp_arguments [simp]:
  "j < length (named_modules M) \<Longrightarrow>
   fst (named_modules (deparallel_update_mp_arguments W tp M) ! j) = fst (named_modules M ! j)"
  by (simp add: deparallel_update_mp_arguments_def split: prod.splits)

lemma same_frame_deparallel_update_mp_arguments:
  "same_frame M (deparallel_update_mp_arguments W tp M)"
  by (simp add: same_frame_def module_at_deparallel_update_mp_arguments expand_attrs_frame)

lemma ready_attr_dvd:
  assumes ready: "round_trip_ready W tp M" and j: "j < length (named_modules M)"
      and a: "a \<in> set (update_attrs tp)" and h: "attrs (module_at M j) a = Some h"
  shows "int W dvd h"
proof -
  have "list_all (\<lambda>(name, m). list_all (\<lambda>a. case attrs m a of None \<Rightarrow> True | Some h \<Rightarrow> int W dvd h)
                                 (update_attrs tp))
           (named_modules M)"
    using ready by (simp add: round_trip_ready_def)
  then have "(\<lambda>(name, m). list_all (\<lambda>a. case attrs m a of None \<Rightarrow> True | Some h \<Rightarrow> int W dvd h)
                                 (update_attrs tp)) (named_modules M ! j)"
    using j by (simp add: list_all_length)
  then have "list_all (\<lambda>a. case attrs (module_at M j) a of None \<Rightarrow> True | Some h \<Rightarrow> int W dvd h)
               (update_attrs tp)"
    by (simp add: module_at_def split: prod.splits)
  then have "case attrs (module_at M j) a of None \<Rightarrow> True | Some h \<Rightarrow> int W dvd h"
    using a by (simp add: list_all_iff)
  then show ?thesis using h by simp
qed

lemma expand_after_parallelize:
  assumes ready: "round_trip_ready W tp M" and p: "parallelized W r tp M cur"
  shows "rank_state W r tp M (slicing_plan W tp M) (deparallel_update_mp_arguments W tp cur)"
proof -
  let ?cur' = "deparallel_update_mp_arguments W tp cur"
  let ?names = "update_attrs tp"
  have W: "0 < W" and dn: "distinct ?names"
    and ne: "\<And>a. a \<in> set ?names \<Longrightarrow> a \<notin> set engine_attributes"
    using ready by (simp_all add: round_trip_ready_def list_all_iff)
  have sf: "same_frame M cur" using p by (simp add: parallelized_def)
  have len: "length (named_modules cur) = length (named_modules M)"
    using sf by (simp add: same_frame_def)
  have c1: "same_frame M ?cur'"
    by (rule same_frame_trans[OF sf same_frame_deparallel_update_mp_arguments])
  have c2: "\<forall>j<length (named_modules M). \<forall>a. a \<notin> set engine_attributes \<longrightarrow>
            attrs (module_at ?cur' j) a = attrs (module_at M j) a"
  proof (intro allI impI)
    fix j a assume j: "j < length (named_modules M)" and a: "a \<notin> set engine_attributes"
    have m: "module_at ?cur' j = expand_attrs W ?names (module_at cur j)"
      using j len by (simp add: module_at_deparallel_update_mp_arguments)
    have ca: "attrs (module_at cur j) a = attrs (reduce_attrs W ?names (module_at M j)) a"
      using p j a by (simp add: parallelized_def)
    show "attrs (module_at ?cur' j) a = attrs (module_at M j) a"
    proof (cases "a \<in> set ?names")
      case False
      then show ?thesis unfolding m using ca by (simp add: expand_attrs_notin reduce_attrs_notin)
    next
      case True
      have e: "attrs (module_at ?cur' j) a
                 = map_option (\<lambda>h. h * int W) (map_option (\<lambda>h. h div int W) (attrs (module_at M j) a))"
        unfolding m using ca True dn by (simp add: expand_attrs_in reduce_attrs_in)
      show ?thesis
      proof (cases "attrs (module_at M j) a")
        case None
        then show ?thesis using e by simp
      next
        case (Some h)
        have "int W dvd h" by (rule ready_attr_dvd[OF ready j True Some])
        then have "h div int W * int W = h" by simp
        then show ?thesis using e Some by simp
      qed
    qed
  qed
  have nf: "''fusion_degree'' \<notin> set ?names"
    using ne[of "''fusion_degree''"] by (auto simp: engine_attributes_def)
  have c3: "\<forall>j<length (named_modules M). merge_dim tp M j \<noteq> None \<longrightarrow>
            attrs (module_at ?cur' j) ''fusion_degree'' = Some (fusion_of W tp M j)
            \<and> reversed (module_at ?cur' j) = Some (is_reversed_param tp (fst (named_modules M ! j)))"
  proof (intro allI impI)
    fix j assume j: "j < length (named_modules M)" and md: "merge_dim tp M j \<noteq> None"
    have m: "module_at ?cur' j = expand_attrs W ?names (module_at cur j)"
      using j len by (simp add: module_at_deparallel_update_mp_arguments)
    show "attrs (module_at ?cur' j) ''fusion_degree'' = Some (fusion_of W tp M j)
            \<and> reversed (module_at ?cur' j) = Some (is_reversed_param tp (fst (named_modules M ! j)))"
      unfolding m using p j md nf
      by (simp add: parallelized_def expand_attrs_notin expand_attrs_frame)
  qed
  have c4: "sharded_by W r M (slicing_plan W tp M) ?cur'"
    using p by (simp add: parallelized_def sharded_by_def)
  show ?thesis unfolding rank_state_def using c1 c2 c3 c4 by blast
qed

lemma local_step_ex:
  assumes "\<And>r. r < length Ms \<Longrightarrow> \<exists>s'. f (Ms ! r) = Inr s' \<and> P r s'"
  shows "\<exists>Ms'. local_step f Ms = Inr Ms' \<and> length Ms' = length Ms \<and> (\<forall>r<length Ms. P r (Ms' ! r))"
proof -
  define g where "g r = (case f (Ms ! r) of Inr s' \<Rightarrow> s' | Inl e \<Rightarrow> Ms ! r)" for r
  have ab: "\<And>r. r < length Ms \<Longrightarrow> f (Ms ! r) = Inr (g r) \<and> P r (g r)"
  proof -
    fix r assume "r < length Ms"
    then obtain s' where "f (Ms ! r) = Inr s'" "P r s'" using assms by blast
    then show "f (Ms ! r) = Inr (g r) \<and> P r (g r)" by (simp add: g_def)
  qed
  have a: "\<And>r. r < length Ms \<Longrightarrow> f (Ms ! r) = Inr (g r)" using ab by simp
  have b: "\<And>r. r < length Ms \<Longrightarrow> P r (g r)" using ab by simp
  have "local_step f Ms = Inr (map g [0..<length Ms])" by (rule local_step_map[where f = f and g = g and Ms = Ms, OF a])
  then show ?thesis using b by (intro exI[of _ "map g [0..<length Ms]"]) simp
qed

lemma all_gather_step_ex:
  assumes c: "\<And>r. r < length Ms \<Longrightarrow> c (Ms ! r) = Inr (Some (ts r))"
      and sh: "\<And>r. r < length Ms \<Longrightarrow> same_shape (ts r) (ts 0)"
      and k: "\<And>r. r < length Ms \<Longrightarrow>
                \<exists>s'. k (map ts [0..<length Ms]) (Ms ! r) = Inr s' \<and> P r s'"
      and ne: "0 < length Ms"
  shows "\<exists>Ms'. all_gather_step c k Ms = Inr Ms' \<and> length Ms' = length Ms
               \<and> (\<forall>r<length Ms. P r (Ms' ! r))"
proof -
  define g where
    "g r = (case k (map ts [0..<length Ms]) (Ms ! r) of Inr s' \<Rightarrow> s' | Inl e \<Rightarrow> Ms ! r)" for r
  have ab: "\<And>r. r < length Ms \<Longrightarrow>
              k (map ts [0..<length Ms]) (Ms ! r) = Inr (g r) \<and> P r (g r)"
  proof -
    fix r assume "r < length Ms"
    then obtain s' where "k (map ts [0..<length Ms]) (Ms ! r) = Inr s'" "P r s'" using k by blast
    then show "k (map ts [0..<length Ms]) (Ms ! r) = Inr (g r) \<and> P r (g r)" by (simp add: g_def)
  qed
  have a: "\<And>r. r < length Ms \<Longrightarrow> k (map ts [0..<length Ms]) (Ms ! r) = Inr (g r)"
    using ab by simp
  have b: "\<And>r. r < length Ms \<Longrightarrow> P r (g r)" using ab by simp
  have "all_gather_step c k Ms = Inr (map g [0..<length Ms])"
    by (rule all_gather_step_some[where c = c and k = k and ts = ts and g = g and Ms = Ms,
          OF c sh a ne])
  then show ?thesis using b by (intro exI[of _ "map g [0..<length Ms]"]) simp
qed

lemma sharded_by_drop:
  assumes "sharded_by W r M ((p, F, d) # L) cur" and "p \<notin> fst ` set L"
      and "\<And>q. data (parameters cur' q) =
                 (if q = p then data (parameters M p) else data (parameters cur q))"
  shows "sharded_by W r M L cur'"
proof -
  have n: "map_of L p = None" by (rule map_of_None_if_notin[OF assms(2)])
  show ?thesis
    unfolding sharded_by_def
  proof
    fix q
    show "data (parameters cur' q) =
            (case map_of L q of None \<Rightarrow> data (parameters M q)
             | Some (F, d) \<Rightarrow> shard_of (data (parameters M q)) F W d r)"
    proof (cases "q = p")
      case True
      then show ?thesis using n assms(3) by simp
    next
      case False
      have "data (parameters cur q) =
              (case map_of ((p, F, d) # L) q of None \<Rightarrow> data (parameters M q)
               | Some (F, d) \<Rightarrow> shard_of (data (parameters M q)) F W d r)"
        using assms(1) by (simp add: sharded_by_def)
      then show ?thesis using False assms(3) by simp
    qed
  qed
qed

lemma sharded_by_head:
  assumes "sharded_by W r M ((p, F, d) # L) cur"
  shows "data (parameters cur p) = shard_of (data (parameters M p)) F W d r"
  using assms by (simp add: sharded_by_def)

lemma shards_same_shape:
  assumes ev: "slices_evenly t F W d" and W: "0 < W" and r: "r < W"
  shows "same_shape (shard_of t F W d r) (shard_of t F W d 0)"
  using shard_of_shape[OF ev W r] shard_of_shape[OF ev W W] by (simp add: same_shape_def)

subsection \<open>The embedding comes back\<close>

lemma untie_module_ok:
  assumes "attrs (module_at M e) ''num_embeddings'' \<noteq> None"
  shows "\<exists>M'. untie_module e p i M = Inr M' \<and> keeps M M' \<and> parameters M' = parameters M
               \<and> length (named_modules M') = length (named_modules M)
               \<and> attrs (module_at M' e) ''num_embeddings'' = attrs (module_at M e) ''num_embeddings''"
proof (cases "weight (module_at M i) = Some p \<and> \<not> isinstance_Embedding (cls (module_at M i))
         \<and> \<not> isinstance_VocabParallelEmbedding (cls (module_at M i))")
  case False
  then have "untie_module e p i M = Inr M" by (auto simp: untie_module_def Let_def)
  then show ?thesis by simp
next
  case True
  obtain n where n: "attrs (module_at M e) ''num_embeddings'' = Some n" using assms by auto
  let ?f = "\<lambda>m. restore_class (m\<lparr>mpu_attr := Some MpuNone, attrs := (attrs m)(''out_features'' \<mapsto> n)\<rparr>)"
  have res: "untie_module e p i M = Inr (update_module i ?f M)"
    using True n by (simp add: untie_module_def Let_def)
  have k: "keeps M (update_module i ?f M)"
    by (rule keeps_update_module) simp_all
  have a: "attrs (module_at (update_module i ?f M) e) ''num_embeddings''
             = attrs (module_at M e) ''num_embeddings''"
    by (simp add: module_at_update_module)
  show ?thesis using res k a by simp
qed

lemma untie_modules_ok:
  assumes "attrs (module_at M e) ''num_embeddings'' \<noteq> None"
  shows "\<exists>M'. untie_modules e p is M = Inr M' \<and> keeps M M' \<and> parameters M' = parameters M"
  using assms
proof (induction "is" arbitrary: M)
  case Nil
  then show ?case by simp
next
  case (Cons i "is")
  obtain M1 where u: "untie_module e p i M = Inr M1" and k1: "keeps M M1"
      and p1: "parameters M1 = parameters M"
      and a1: "attrs (module_at M1 e) ''num_embeddings'' = attrs (module_at M e) ''num_embeddings''"
    using untie_module_ok[OF Cons.prems, of p i] by blast
  have "attrs (module_at M1 e) ''num_embeddings'' \<noteq> None" using a1 Cons.prems by simp
  from Cons.IH[OF this]
  obtain M' where u': "untie_modules e p is M1 = Inr M'" and k': "keeps M1 M'"
      and p': "parameters M' = parameters M1" by blast
  have "untie_modules e p (i # is) M = Inr M'" using u u' by (simp add: then_step_def)
  then show ?case using keeps_trans[OF k1 k'] p' p1 by simp
qed

lemma embedding_continue_rank:
  assumes rs: "rank_state W r tp M ((pe, 1, 0) # L) cur"
      and e: "get_input_embeddings M = Some e" "e < length (named_modules M)"
      and pe: "weight (module_at M e) = Some pe"
      and ev: "slices_evenly (data (parameters M pe)) 1 W 0"
      and W: "0 < W" and notin: "pe \<notin> fst ` set L"
  shows "\<exists>s'. embedding_continue (map (shard_of (data (parameters M pe)) 1 W 0) [0..<W]) cur = Inr s'
               \<and> rank_state W r tp M L s'"
proof -
  let ?t = "data (parameters M pe)"
  have sf: "same_frame M cur" and sh: "sharded_by W r M ((pe, 1, 0) # L) cur"
    using rs by (simp_all add: rank_state_def)
  have ce: "get_input_embeddings cur = Some e" and cl: "e < length (named_modules cur)"
    and cw: "weight (module_at cur e) = Some pe"
    using sf e pe by (simp_all add: same_frame_def)
  have cat: "torch_cat (map (shard_of ?t 1 W 0) [0..<W]) 0 = Inr ?t"
    using merge_even[OF ev W] by simp
  let ?M1 = "set_data pe ?t (set_cuda pe cur)"
  have d1: "data (parameters ?M1 pe) = ?t" by simp
  have dim: "0 < tensor_dim ?t" using slices_evenly_dim[OF ev] by simp
  have sz: "size_at ?t 0 = Inr (tensor_size ?t ! 0)" by (rule size_at_Inr[OF dim])
  let ?f = "\<lambda>m. restore_class (m\<lparr>mpu_attr := Some MpuNone,
                 attrs := (attrs m)(''num_embeddings'' \<mapsto> int (tensor_size ?t ! 0))\<rparr>)"
  let ?M2 = "update_module e ?f ?M1"
  have l1: "e < length (named_modules ?M1)" using cl by simp
  have ne: "attrs (module_at ?M2 e) ''num_embeddings'' \<noteq> None"
    using l1 by (simp add: module_at_update_module)
  obtain M3 where u: "untie_modules e pe [0..<length (named_modules ?M2)] ?M2 = Inr M3"
      and k3: "keeps ?M2 M3" and p3: "parameters M3 = parameters ?M2"
    using untie_modules_ok[OF ne] by blast
  have res: "embedding_continue (map (shard_of ?t 1 W 0) [0..<W]) cur = Inr M3"
    unfolding embedding_continue_def using ce cw cat sz u by (simp add: Let_def)
  have k1: "keeps cur ?M1" by (rule keeps_params) simp_all
  have k2: "keeps ?M1 ?M2" by (rule keeps_update_module) simp_all
  have k: "keeps cur M3" by (rule keeps_trans[OF keeps_trans[OF k1 k2] k3])
  have s: "sharded_by W r M L M3"
    by (rule sharded_by_drop[OF sh notin]) (simp add: p3)
  show ?thesis using res rank_state_keeps[OF rs k s] by blast
qed

lemma embedding_step:
  assumes ready: "round_trip_ready W tp M"
      and g: "group_state W tp M (slicing_plan W tp M) Ms"
  shows "\<exists>Ms'. all_gather_step embedding_contribution embedding_continue Ms = Inr Ms'
               \<and> group_state W tp M
                    (concat (map (module_entries W tp M) [0..<length (named_modules M)])) Ms'"
proof -
  obtain e pe where e: "get_input_embeddings M = Some e" "e < length (named_modules M)"
    and pe: "weight (module_at M e) = Some pe" and ee: "embedding_entries M = [(pe, 1, 0)]"
    and ev: "slices_evenly (data (parameters M pe)) 1 W 0"
    using ready_embedding[OF ready] by blast
  have W: "0 < W" using ready by (simp add: round_trip_ready_def)
  let ?L = "concat (map (module_entries W tp M) [0..<length (named_modules M)])"
  let ?t = "data (parameters M pe)"
  have plan: "slicing_plan W tp M = (pe, 1, 0) # ?L" by (simp add: slicing_plan_def ee)
  have "distinct (map fst (slicing_plan W tp M))" using ready by (simp add: round_trip_ready_def)
  then have notin: "pe \<notin> fst ` set ?L" unfolding plan by simp
  have len: "length Ms = W" by (rule group_state_length[OF g])
  have rs: "\<And>r. r < length Ms \<Longrightarrow> rank_state W r tp M ((pe, 1, 0) # ?L) (Ms ! r)"
    using group_state_nth[OF g] len plan by simp
  have c: "\<And>r. r < length Ms \<Longrightarrow>
             embedding_contribution (Ms ! r) = Inr (Some (shard_of ?t 1 W 0 r))"
  proof -
    fix r assume r: "r < length Ms"
    have sf: "same_frame M (Ms ! r)" and sh: "sharded_by W r M ((pe, 1, 0) # ?L) (Ms ! r)"
      using rs[OF r] by (simp_all add: rank_state_def)
    have "get_input_embeddings (Ms ! r) = Some e" "e < length (named_modules (Ms ! r))"
         "weight (module_at (Ms ! r) e) = Some pe"
      using sf e pe by (simp_all add: same_frame_def)
    then show "embedding_contribution (Ms ! r) = Inr (Some (shard_of ?t 1 W 0 r))"
      using sharded_by_head[OF sh] by (simp add: embedding_contribution_def)
  qed
  have s: "\<And>r. r < length Ms \<Longrightarrow> same_shape (shard_of ?t 1 W 0 r) (shard_of ?t 1 W 0 0)"
    using shards_same_shape[OF ev W] len by simp
  have k: "\<And>r. r < length Ms \<Longrightarrow>
             \<exists>s'. embedding_continue (map (shard_of ?t 1 W 0) [0..<length Ms]) (Ms ! r) = Inr s'
                  \<and> rank_state W r tp M ?L s'"
    unfolding len using embedding_continue_rank[OF rs[unfolded len] e pe ev W notin] by simp
  have ne: "0 < length Ms" using W len by simp
  obtain Ms' where a: "all_gather_step embedding_contribution embedding_continue Ms = Inr Ms'"
      and l': "length Ms' = length Ms" and p: "\<forall>r<length Ms. rank_state W r tp M ?L (Ms' ! r)"
    using all_gather_step_ex[where P = "\<lambda>r s'. rank_state W r tp M ?L s'"
        and c = embedding_contribution and k = embedding_continue
        and ts = "shard_of ?t 1 W 0" and Ms = Ms, OF c s k ne] by blast
  have "group_state W tp M ?L Ms'" using l' p len by (simp add: group_state_def)
  then show ?thesis using a by blast
qed

subsection \<open>A module comes back\<close>

lemma ready_pending:
  assumes ready: "round_trip_ready W tp M" and k: "k < length (named_modules M)"
  shows "distinct (map fst (module_entries W tp M k
            @ concat (map (module_entries W tp M) [Suc k..<length (named_modules M)])))"
    and "list_all (\<lambda>(p, F, d). slices_evenly (data (parameters M p)) F W d)
           (module_entries W tp M k
            @ concat (map (module_entries W tp M) [Suc k..<length (named_modules M)]))"
proof -
  let ?L = "embedding_entries M @ concat (map (module_entries W tp M) [0..<k])"
  let ?R = "module_entries W tp M k
            @ concat (map (module_entries W tp M) [Suc k..<length (named_modules M)])"
  have plan: "slicing_plan W tp M = ?L @ ?R" using plan_split[OF k, of W tp] by simp
  have "distinct (map fst (?L @ ?R))"
    using ready unfolding round_trip_ready_def plan by simp
  then show "distinct (map fst ?R)" by simp
  have "list_all (\<lambda>(p, F, d). slices_evenly (data (parameters M p)) F W d) (?L @ ?R)"
    using ready unfolding round_trip_ready_def plan by simp
  then show "list_all (\<lambda>(p, F, d). slices_evenly (data (parameters M p)) F W d) ?R" by simp
qed

lemma ready_weight_matrix:
  assumes ready: "round_trip_ready W tp M" and k: "k < length (named_modules M)"
      and md: "merge_dim tp M k \<noteq> None" and p: "weight (module_at M k) = Some p"
  shows "tensor_dim (data (parameters M p)) = 2"
proof -
  have "list_all (\<lambda>i. case weight (module_at M i) of
                         None \<Rightarrow> True
                       | Some p \<Rightarrow> merge_dim tp M i = None \<or> tensor_dim (data (parameters M p)) = 2)
           [0..<length (named_modules M)]"
    using ready by (simp add: round_trip_ready_def)
  then have "case weight (module_at M k) of
                         None \<Rightarrow> True
                       | Some p \<Rightarrow> merge_dim tp M k = None \<or> tensor_dim (data (parameters M p)) = 2"
    using k by (simp add: list_all_iff)
  then show ?thesis using p md by simp
qed

lemma rank_state_frame:
  assumes "rank_state W r tp M L cur" and "k < length (named_modules M)"
  shows "merge_dim tp cur k = merge_dim tp M k" "weight (module_at cur k) = weight (module_at M k)"
        "bias (module_at cur k) = bias (module_at M k)" "k < length (named_modules cur)"
  using assms by (simp_all add: rank_state_def same_frame_def merge_dim_def)

lemma rank_state_args:
  assumes "rank_state W r tp M L cur" and "k < length (named_modules M)"
      and "merge_dim tp M k = Some d0"
  shows "attrs (module_at cur k) ''fusion_degree'' = Some (fusion_of W tp M k)"
        "reversed (module_at cur k) = Some (is_reversed_param tp (fst (named_modules M ! k)))"
  using assms by (simp_all add: rank_state_def)

lemma rank_state_sharded: "rank_state W r tp M L cur \<Longrightarrow> sharded_by W r M L cur"
  by (simp add: rank_state_def)

lemma merge_begin_rank:
  assumes rs: "rank_state W r tp M L cur" and k: "k < length (named_modules M)"
  shows "\<exists>s'. merge_begin tp k cur = Inr s' \<and> rank_state W r tp M L s'"
proof (cases "merge_dim tp M k")
  case None
  then have "merge_begin tp k cur = Inr cur"
    using rank_state_frame(1)[OF rs k] by (simp add: merge_begin_def)
  then show ?thesis using rs by simp
next
  case (Some d0)
  let ?s = "update_module k (\<lambda>m. m\<lparr>mpu_attr := Some MpuNone\<rparr>) cur"
  have res: "merge_begin tp k cur = Inr ?s"
    using rank_state_frame(1)[OF rs k] rank_state_args[OF rs k Some] Some
    by (simp add: merge_begin_def)
  have kp: "keeps cur ?s" by (rule keeps_update_module) simp_all
  have sh: "sharded_by W r M L ?s"
    by (rule sharded_by_same[OF rank_state_sharded[OF rs]]) simp
  show ?thesis using res rank_state_keeps[OF rs kp sh] by simp
qed

lemma merge_end_rank:
  assumes rs: "rank_state W r tp M L cur" and k: "k < length (named_modules M)"
  shows "\<exists>s'. merge_end tp k cur = Inr s' \<and> rank_state W r tp M L s'"
proof (cases "merge_dim tp M k")
  case None
  then have "merge_end tp k cur = Inr cur"
    using rank_state_frame(1)[OF rs k] by (simp add: merge_end_def)
  then show ?thesis using rs by simp
next
  case (Some d0)
  let ?s = "update_module k restore_class cur"
  have res: "merge_end tp k cur = Inr ?s"
    using rank_state_frame(1)[OF rs k] Some by (simp add: merge_end_def)
  have kp: "keeps cur ?s" by (rule keeps_update_module) simp_all
  have sh: "sharded_by W r M L ?s"
    by (rule sharded_by_same[OF rank_state_sharded[OF rs]]) simp
  show ?thesis using res rank_state_keeps[OF rs kp sh] by simp
qed

lemma local_group:
  assumes g: "group_state W tp M L Ms"
      and step: "\<And>r cur. r < W \<Longrightarrow> rank_state W r tp M L cur \<Longrightarrow>
                   \<exists>s'. f cur = Inr s' \<and> rank_state W r tp M L s'"
  shows "\<exists>Ms'. local_step f Ms = Inr Ms' \<and> group_state W tp M L Ms'"
proof -
  have len: "length Ms = W" by (rule group_state_length[OF g])
  have a: "\<And>r. r < length Ms \<Longrightarrow> \<exists>s'. f (Ms ! r) = Inr s' \<and> rank_state W r tp M L s'"
    using step group_state_nth[OF g] len by simp
  obtain Ms' where "local_step f Ms = Inr Ms'" "length Ms' = length Ms"
      "\<forall>r<length Ms. rank_state W r tp M L (Ms' ! r)"
    using local_step_ex[where f = f and Ms = Ms and P = "\<lambda>r s'. rank_state W r tp M L s'", OF a]
    by blast
  then show ?thesis using len by (auto simp: group_state_def)
qed

lemma gather_group:
  assumes g: "group_state W tp M L Ms" and W: "0 < W"
      and c: "\<And>r cur. r < W \<Longrightarrow> rank_state W r tp M L cur \<Longrightarrow> c cur = Inr (Some (ts r))"
      and sh: "\<And>r. r < W \<Longrightarrow> same_shape (ts r) (ts 0)"
      and k: "\<And>r cur. r < W \<Longrightarrow> rank_state W r tp M L cur \<Longrightarrow>
                \<exists>s'. k (map ts [0..<W]) cur = Inr s' \<and> rank_state W r tp M L' s'"
  shows "\<exists>Ms'. all_gather_step c k Ms = Inr Ms' \<and> group_state W tp M L' Ms'"
proof -
  have len: "length Ms = W" by (rule group_state_length[OF g])
  have c': "\<And>r. r < length Ms \<Longrightarrow> c (Ms ! r) = Inr (Some (ts r))"
    using c group_state_nth[OF g] len by simp
  have sh': "\<And>r. r < length Ms \<Longrightarrow> same_shape (ts r) (ts 0)" using sh len by simp
  have k': "\<And>r. r < length Ms \<Longrightarrow>
              \<exists>s'. k (map ts [0..<length Ms]) (Ms ! r) = Inr s' \<and> rank_state W r tp M L' s'"
    using k group_state_nth[OF g] len by simp
  have ne: "0 < length Ms" using W len by simp
  obtain Ms' where "all_gather_step c k Ms = Inr Ms'" "length Ms' = length Ms"
      "\<forall>r<length Ms. rank_state W r tp M L' (Ms' ! r)"
    using all_gather_step_ex[where P = "\<lambda>r s'. rank_state W r tp M L' s'"
        and c = c and k = k and ts = ts and Ms = Ms, OF c' sh' k' ne] by blast
  then show ?thesis using len by (auto simp: group_state_def)
qed

lemma none_group:
  assumes g: "group_state W tp M L Ms"
      and c: "\<And>r cur. r < W \<Longrightarrow> rank_state W r tp M L cur \<Longrightarrow> c cur = Inr None"
  shows "all_gather_step c k Ms = Inr Ms"
proof -
  have len: "length Ms = W" by (rule group_state_length[OF g])
  have "\<And>r. r < length Ms \<Longrightarrow> c (Ms ! r) = Inr None"
    using c group_state_nth[OF g] len by simp
  then show ?thesis by (rule all_gather_step_none)
qed

lemma weight_group_none:
  assumes g: "group_state W tp M L Ms" and k: "k < length (named_modules M)"
      and n: "merge_dim tp M k = None \<or> weight (module_at M k) = None"
  shows "all_gather_step (merge_weight_contribution tp k) (merge_weight_continue tp k) Ms = Inr Ms"
proof (rule none_group[OF g])
  fix r cur assume "r < W" and rs: "rank_state W r tp M L cur"
  show "merge_weight_contribution tp k cur = Inr None"
    using n rank_state_frame(1,2)[OF rs k]
    by (auto simp: merge_weight_contribution_def split: option.splits)
qed

lemma bias_group_none:
  assumes g: "group_state W tp M L Ms" and k: "k < length (named_modules M)"
      and n: "merge_dim tp M k \<noteq> Some 0 \<or> bias (module_at M k) = None"
  shows "all_gather_step (merge_bias_contribution tp k) (merge_bias_continue tp k) Ms = Inr Ms"
proof (rule none_group[OF g])
  fix r cur assume "r < W" and rs: "rank_state W r tp M L cur"
  show "merge_bias_contribution tp k cur = Inr None"
    using n rank_state_frame(1,3)[OF rs k]
    by (auto simp: merge_bias_contribution_def split: option.splits)
qed

lemma weight_group_some:
  assumes g: "group_state W tp M ((p, F, d) # L) Ms" and W: "0 < W"
      and k: "k < length (named_modules M)"
      and md: "merge_dim tp M k = Some d0" and w: "weight (module_at M k) = Some p"
      and F: "F = fusion_of W tp M k"
      and d: "int d = (if \<not> is_reversed_param tp (fst (named_modules M ! k)) then d0 else \<bar>d0 - 1\<bar>)"
      and mat: "tensor_dim (data (parameters M p)) = 2"
      and ev: "slices_evenly (data (parameters M p)) F W d"
      and notin: "p \<notin> fst ` set L"
  shows "\<exists>Ms'. all_gather_step (merge_weight_contribution tp k) (merge_weight_continue tp k) Ms = Inr Ms'
               \<and> group_state W tp M L Ms'"
proof (rule gather_group[OF g W, where ts = "shard_of (data (parameters M p)) F W d"])
  let ?t = "data (parameters M p)"
  show "\<And>r. r < W \<Longrightarrow> same_shape (shard_of ?t F W d r) (shard_of ?t F W d 0)"
    by (rule shards_same_shape[OF ev W])
  show "\<And>r cur. r < W \<Longrightarrow> rank_state W r tp M ((p, F, d) # L) cur \<Longrightarrow>
          merge_weight_contribution tp k cur = Inr (Some (shard_of ?t F W d r))"
  proof -
    fix r cur assume r: "r < W" and rs: "rank_state W r tp M ((p, F, d) # L) cur"
    have dt: "data (parameters cur p) = shard_of ?t F W d r"
      by (rule sharded_by_head[OF rank_state_sharded[OF rs]])
    have "tensor_dim (shard_of ?t F W d r) = 2" using shard_of_shape[OF ev W r] mat by simp
    then show "merge_weight_contribution tp k cur = Inr (Some (shard_of ?t F W d r))"
      using rank_state_frame(1,2)[OF rs k] md w dt by (simp add: merge_weight_contribution_def)
  qed
  show "\<And>r cur. r < W \<Longrightarrow> rank_state W r tp M ((p, F, d) # L) cur \<Longrightarrow>
          \<exists>s'. merge_weight_continue tp k (map (shard_of ?t F W d) [0..<W]) cur = Inr s'
               \<and> rank_state W r tp M L s'"
  proof -
    fix r cur assume r: "r < W" and rs: "rank_state W r tp M ((p, F, d) # L) cur"
    let ?rvs = "is_reversed_param tp (fst (named_modules M ! k))"
    have cat: "F > 1 \<Longrightarrow> reconstruct_combined_qkv (map (shard_of ?t F W d) [0..<W]) F (int d) = Inr ?t"
              "\<not> F > 1 \<Longrightarrow> torch_cat (map (shard_of ?t F W d) [0..<W]) (int d) = Inr ?t"
      using merge_even[OF ev W] by (auto split: if_splits)
    let ?M1 = "set_data p ?t (set_cuda p cur)"
    have s0: "size_at ?t 0 = Inr (tensor_size ?t ! 0)" using mat by (intro size_at_Inr) simp
    have s1: "size_at ?t 1 = Inr (tensor_size ?t ! 1)" using mat by (intro size_at_Inr) simp
    let ?s = "update_module k
                (\<lambda>m. m\<lparr>attrs := (attrs m)(''in_features'' \<mapsto> int (tensor_size ?t ! 0),
                                             ''out_features'' \<mapsto> int (tensor_size ?t ! 1),
                                             ''nx'' \<mapsto> int (tensor_size ?t ! 0),
                                             ''nf'' \<mapsto> int (tensor_size ?t ! 1))\<rparr>) ?M1"
    have res: "merge_weight_continue tp k (map (shard_of ?t F W d) [0..<W]) cur = Inr ?s"
      unfolding merge_weight_continue_def
      using rank_state_frame(1,2)[OF rs k] rank_state_args[OF rs k md] md w F[symmetric] d[symmetric]
        cat s0 s1
      by (simp add: Let_def)
    have k1: "keeps cur ?M1" by (rule keeps_params) simp_all
    have k2: "keeps ?M1 ?s" by (rule keeps_update_module) simp_all
    have sh: "sharded_by W r M L ?s"
      by (rule sharded_by_drop[OF rank_state_sharded[OF rs] notin]) simp
    show "\<exists>s'. merge_weight_continue tp k (map (shard_of ?t F W d) [0..<W]) cur = Inr s'
               \<and> rank_state W r tp M L s'"
      using res rank_state_keeps[OF rs keeps_trans[OF k1 k2] sh] by blast
  qed
qed

lemma bias_group_some:
  assumes g: "group_state W tp M ((b, F, 0) # L) Ms" and W: "0 < W"
      and k: "k < length (named_modules M)"
      and md: "merge_dim tp M k = Some 0" and w: "bias (module_at M k) = Some b"
      and F: "F = fusion_of W tp M k"
      and ev: "slices_evenly (data (parameters M b)) F W 0"
      and notin: "b \<notin> fst ` set L"
  shows "\<exists>Ms'. all_gather_step (merge_bias_contribution tp k) (merge_bias_continue tp k) Ms = Inr Ms'
               \<and> group_state W tp M L Ms'"
proof (rule gather_group[OF g W, where ts = "shard_of (data (parameters M b)) F W 0"])
  let ?t = "data (parameters M b)"
  show "\<And>r. r < W \<Longrightarrow> same_shape (shard_of ?t F W 0 r) (shard_of ?t F W 0 0)"
    by (rule shards_same_shape[OF ev W])
  show "\<And>r cur. r < W \<Longrightarrow> rank_state W r tp M ((b, F, 0) # L) cur \<Longrightarrow>
          merge_bias_contribution tp k cur = Inr (Some (shard_of ?t F W 0 r))"
  proof -
    fix r cur assume r: "r < W" and rs: "rank_state W r tp M ((b, F, 0) # L) cur"
    have dt: "data (parameters cur b) = shard_of ?t F W 0 r"
      by (rule sharded_by_head[OF rank_state_sharded[OF rs]])
    have "1 \<le> tensor_dim (shard_of ?t F W 0 r)"
      using shard_of_shape[OF ev W r] slices_evenly_dim[OF ev] by simp
    then show "merge_bias_contribution tp k cur = Inr (Some (shard_of ?t F W 0 r))"
      using rank_state_frame(1,3)[OF rs k] md w dt by (simp add: merge_bias_contribution_def)
  qed
  show "\<And>r cur. r < W \<Longrightarrow> rank_state W r tp M ((b, F, 0) # L) cur \<Longrightarrow>
          \<exists>s'. merge_bias_continue tp k (map (shard_of ?t F W 0) [0..<W]) cur = Inr s'
               \<and> rank_state W r tp M L s'"
  proof -
    fix r cur assume r: "r < W" and rs: "rank_state W r tp M ((b, F, 0) # L) cur"
    have cat: "F > 1 \<Longrightarrow> reconstruct_combined_qkv (map (shard_of ?t F W 0) [0..<W]) F 0 = Inr ?t"
              "\<not> F > 1 \<Longrightarrow> torch_cat (map (shard_of ?t F W 0) [0..<W]) 0 = Inr ?t"
      using merge_even[OF ev W] by (auto split: if_splits)
    let ?s = "set_data b ?t (set_cuda b cur)"
    have res: "merge_bias_continue tp k (map (shard_of ?t F W 0) [0..<W]) cur = Inr ?s"
      unfolding merge_bias_continue_def
      using rank_state_frame(3)[OF rs k] rank_state_args(1)[OF rs k md] w F[symmetric] cat
      by simp
    have k1: "keeps cur ?s" by (rule keeps_params) simp_all
    have sh: "sharded_by W r M L ?s"
      by (rule sharded_by_drop[OF rank_state_sharded[OF rs] notin]) simp
    show "\<exists>s'. merge_bias_continue tp k (map (shard_of ?t F W 0) [0..<W]) cur = Inr s'
               \<and> rank_state W r tp M L s'"
      using res rank_state_keeps[OF rs k1 sh] by blast
  qed
qed

lemma module_entries_unmatched:
  "merge_dim tp M k = None \<Longrightarrow> module_entries W tp M k = []"
  by (simp add: merge_dim_def module_entries_def Let_def split: if_splits)

lemma merge_dim_cases: "merge_dim tp M k = Some d0 \<Longrightarrow> d0 = 0 \<or> d0 = 1"
  by (auto simp: merge_dim_def Let_def split: if_splits)

lemma module_entries_matched:
  assumes "merge_dim tp M k = Some d0"
  shows "module_entries W tp M k =
           (case weight (module_at M k) of
              None \<Rightarrow> []
            | Some p \<Rightarrow>
                [(p, fusion_of W tp M k,
                  nat (if \<not> is_reversed_param tp (fst (named_modules M ! k)) then d0 else \<bar>d0 - 1\<bar>))])
           @ (case (if d0 = 0 then bias (module_at M k) else None) of
                None \<Rightarrow> []
              | Some b \<Rightarrow> [(b, fusion_of W tp M k, 0)])"
  using assms
  by (auto simp: merge_dim_def module_entries_def fusion_of_def Let_def
      split: if_splits option.splits)

lemma merge_module_all_step:
  assumes ready: "round_trip_ready W tp M" and k: "k < length (named_modules M)"
      and g: "group_state W tp M
                (concat (map (module_entries W tp M) [k..<length (named_modules M)])) Ms"
  shows "\<exists>Ms'. merge_module_all tp k Ms = Inr Ms'
               \<and> group_state W tp M
                    (concat (map (module_entries W tp M) [Suc k..<length (named_modules M)])) Ms'"
proof -
  define rest where "rest = concat (map (module_entries W tp M) [Suc k..<length (named_modules M)])"
  have W: "0 < W" using ready by (simp add: round_trip_ready_def)
  have split: "concat (map (module_entries W tp M) [k..<length (named_modules M)])
                 = module_entries W tp M k @ rest"
    using k by (simp add: upt_conv_Cons rest_def)
  have g0: "group_state W tp M (module_entries W tp M k @ rest) Ms" using g split by simp
  have dist: "distinct (map fst (module_entries W tp M k @ rest))"
    and ev: "list_all (\<lambda>(p, F, d). slices_evenly (data (parameters M p)) F W d)
               (module_entries W tp M k @ rest)"
    using ready_pending[OF ready k] by (simp_all add: rest_def)
  obtain Ms1 where s1: "local_step (merge_begin tp k) Ms = Inr Ms1"
      and g1: "group_state W tp M (module_entries W tp M k @ rest) Ms1"
    using local_group[OF g0, of "merge_begin tp k"] merge_begin_rank[OF _ k] by blast
  have mid: "\<exists>Ms3. then_step (all_gather_step (merge_weight_contribution tp k)
                                 (merge_weight_continue tp k) Ms1)
                       (all_gather_step (merge_bias_contribution tp k) (merge_bias_continue tp k))
                     = Inr Ms3 \<and> group_state W tp M rest Ms3"
  proof (cases "merge_dim tp M k")
    case None
    have e: "module_entries W tp M k = []" by (rule module_entries_unmatched[OF None])
    have g1': "group_state W tp M rest Ms1" using g1 e by simp
    have a: "all_gather_step (merge_weight_contribution tp k) (merge_weight_continue tp k) Ms1 = Inr Ms1"
      by (rule weight_group_none[OF g1' k]) (simp add: None)
    have b: "all_gather_step (merge_bias_contribution tp k) (merge_bias_continue tp k) Ms1 = Inr Ms1"
      by (rule bias_group_none[OF g1' k]) (simp add: None)
    show ?thesis using a b g1' by (simp add: then_step_def)
  next
    case (Some d0)
    define F where "F = fusion_of W tp M k"
    define d where "d = nat (if \<not> is_reversed_param tp (fst (named_modules M ! k)) then d0 else \<bar>d0 - 1\<bar>)"
    define WE where "WE = (case weight (module_at M k) of None \<Rightarrow> [] | Some p \<Rightarrow> [(p, F, d)])"
    define BE where "BE = (case (if d0 = 0 then bias (module_at M k) else None) of
                             None \<Rightarrow> [] | Some b \<Rightarrow> [(b, F, 0::nat)])"
    have d01: "d0 = 0 \<or> d0 = 1" by (rule merge_dim_cases[OF Some])
    have dint: "int d = (if \<not> is_reversed_param tp (fst (named_modules M ! k)) then d0 else \<bar>d0 - 1\<bar>)"
      using d01 by (auto simp: d_def)
    have e: "module_entries W tp M k = WE @ BE"
      unfolding WE_def BE_def F_def d_def by (rule module_entries_matched[OF Some])
    have WEc: "(WE = [] \<and> weight (module_at M k) = None)
               \<or> (\<exists>p. WE = [(p, F, d)] \<and> weight (module_at M k) = Some p)"
      by (cases "weight (module_at M k)") (simp_all add: WE_def)
    have BEc: "(BE = [] \<and> (merge_dim tp M k \<noteq> Some 0 \<or> bias (module_at M k) = None))
               \<or> (\<exists>b. BE = [(b, F, 0)] \<and> merge_dim tp M k = Some 0 \<and> bias (module_at M k) = Some b)"
      using Some by (cases "bias (module_at M k)") (auto simp: BE_def)
    have g1': "group_state W tp M (WE @ BE @ rest) Ms1" using g1 e by simp
    have dist': "distinct (map fst (WE @ BE @ rest))" using dist e by simp
    have ev': "list_all (\<lambda>(p, F, d). slices_evenly (data (parameters M p)) F W d) (WE @ BE @ rest)"
      using ev e by simp
    have wstep: "\<exists>Ms2. all_gather_step (merge_weight_contribution tp k)
                          (merge_weight_continue tp k) Ms1 = Inr Ms2
                        \<and> group_state W tp M (BE @ rest) Ms2"
    proof -
      consider (none) "WE = []" "weight (module_at M k) = None"
        | (some) p where "WE = [(p, F, d)]" "weight (module_at M k) = Some p"
        using WEc by auto
      then show ?thesis
      proof cases
        case none
        then have we: "WE = []" and w: "weight (module_at M k) = None" by simp_all
      have g: "group_state W tp M (BE @ rest) Ms1" using g1' we by simp
      have "all_gather_step (merge_weight_contribution tp k) (merge_weight_continue tp k) Ms1 = Inr Ms1"
        by (rule weight_group_none[OF g k]) (simp add: w)
      then show ?thesis using g by blast
    next
        case (some p)
        then have we: "WE = [(p, F, d)]" and w: "weight (module_at M k) = Some p" by simp_all
      have g: "group_state W tp M ((p, F, d) # (BE @ rest)) Ms1" using g1' we by simp
      have notin: "p \<notin> fst ` set (BE @ rest)" using dist' we by (auto simp: image_Un)
      have evp: "slices_evenly (data (parameters M p)) F W d" using ev' we by simp
      have mat: "tensor_dim (data (parameters M p)) = 2"
        by (rule ready_weight_matrix[OF ready k _ w]) (simp add: Some)
      show ?thesis
        by (rule weight_group_some[OF g W k Some w F_def dint mat evp notin])
    qed
    qed
    then obtain Ms2 where s2: "all_gather_step (merge_weight_contribution tp k)
                                 (merge_weight_continue tp k) Ms1 = Inr Ms2"
        and g2: "group_state W tp M (BE @ rest) Ms2" by blast
    have dist2: "distinct (map fst (BE @ rest))" using dist' by simp
    have ev2: "list_all (\<lambda>(p, F, d). slices_evenly (data (parameters M p)) F W d) (BE @ rest)"
      using ev' by simp
    have bstep: "\<exists>Ms3. all_gather_step (merge_bias_contribution tp k)
                          (merge_bias_continue tp k) Ms2 = Inr Ms3
                        \<and> group_state W tp M rest Ms3"
    proof -
      consider (none) "BE = []" "merge_dim tp M k \<noteq> Some 0 \<or> bias (module_at M k) = None"
        | (some) b where "BE = [(b, F, 0)]" "merge_dim tp M k = Some 0" "bias (module_at M k) = Some b"
        using BEc by auto
      then show ?thesis
      proof cases
        case none
        then have be: "BE = []"
          and n: "merge_dim tp M k \<noteq> Some 0 \<or> bias (module_at M k) = None" by simp_all
      have g: "group_state W tp M rest Ms2" using g2 be by simp
      have "all_gather_step (merge_bias_contribution tp k) (merge_bias_continue tp k) Ms2 = Inr Ms2"
        by (rule bias_group_none[OF g k n])
      then show ?thesis using g by blast
    next
        case (some b)
        then have be: "BE = [(b, F, 0)]" and md0: "merge_dim tp M k = Some 0"
          and bb: "bias (module_at M k) = Some b" by simp_all
      have g: "group_state W tp M ((b, F, 0) # rest) Ms2" using g2 be by simp
      have notin: "b \<notin> fst ` set rest" using dist2 be by auto
      have evb: "slices_evenly (data (parameters M b)) F W 0" using ev2 be by simp
      show ?thesis
        by (rule bias_group_some[OF g W k md0 bb F_def evb notin])
    qed
    qed
    then obtain Ms3 where s3: "all_gather_step (merge_bias_contribution tp k)
                                 (merge_bias_continue tp k) Ms2 = Inr Ms3"
        and g3: "group_state W tp M rest Ms3" by blast
    show ?thesis using s2 s3 g3 by (simp add: then_step_def)
  qed
  then obtain Ms3 where s3: "then_step (all_gather_step (merge_weight_contribution tp k)
                                 (merge_weight_continue tp k) Ms1)
                       (all_gather_step (merge_bias_contribution tp k) (merge_bias_continue tp k))
                     = Inr Ms3" and g3: "group_state W tp M rest Ms3" by blast
  obtain Ms4 where s4: "local_step (merge_end tp k) Ms3 = Inr Ms4"
      and g4: "group_state W tp M rest Ms4"
    using local_group[OF g3, of "merge_end tp k"] merge_end_rank[OF _ k] by blast
  have "merge_module_all tp k Ms = Inr Ms4"
    unfolding merge_module_all_def using s1 s3 s4 by (simp add: then_step_def)
  then show ?thesis using g4 unfolding rest_def by blast
qed

lemma deparallelize_modules_all_ok:
  assumes ready: "round_trip_ready W tp M"
  shows "k \<le> length (named_modules M) \<Longrightarrow>
         group_state W tp M (concat (map (module_entries W tp M) [k..<length (named_modules M)])) Ms \<Longrightarrow>
         \<exists>Ms'. deparallelize_modules_all tp [k..<length (named_modules M)] Ms = Inr Ms'
               \<and> group_state W tp M [] Ms'"
proof (induction "length (named_modules M) - k" arbitrary: k Ms)
  case 0
  then show ?case by simp
next
  case (Suc m)
  then have kn: "k < length (named_modules M)" by simp
  obtain Ms1 where a: "merge_module_all tp k Ms = Inr Ms1"
      and g1: "group_state W tp M
                 (concat (map (module_entries W tp M) [Suc k..<length (named_modules M)])) Ms1"
    using merge_module_all_step[OF ready kn Suc.prems(2)] by blast
  have m: "m = length (named_modules M) - Suc k" using Suc.hyps(2) by simp
  have le: "Suc k \<le> length (named_modules M)" using kn by simp
  obtain Ms' where b: "deparallelize_modules_all tp [Suc k..<length (named_modules M)] Ms1 = Inr Ms'"
      and g': "group_state W tp M [] Ms'"
    using Suc.hyps(1)[OF m le g1] by blast
  have "deparallelize_modules_all tp [k..<length (named_modules M)] Ms = Inr Ms'"
    using a b kn by (simp add: upt_conv_Cons then_step_def)
  then show ?case using g' by blast
qed

lemma deparallelize_all_ok:
  assumes ready: "round_trip_ready W tp M"
      and len: "length Ms = W"
      and par: "\<And>r. r < W \<Longrightarrow> parallelized W r tp M (Ms ! r)"
  shows "\<exists>Ms'. deparallelize_all W tp Ms = Inr Ms' \<and> group_state W tp M [] Ms'"
proof -
  let ?n = "length (named_modules M)"
  have W: "0 < W" using ready by (simp add: round_trip_ready_def)
  have lens: "\<And>r. r < W \<Longrightarrow> length (named_modules (Ms ! r)) = ?n"
    using par by (simp add: parallelized_def same_frame_def)
  have hd: "hd Ms = Ms ! 0" using W len by (cases Ms) simp_all
  have hl: "length (named_modules (hd Ms)) = ?n" unfolding hd by (rule lens[OF W])
  have all: "list_all (\<lambda>M'. length (named_modules M') = length (named_modules (hd Ms))) Ms"
    unfolding hl using lens len by (simp add: list_all_length)
  let ?Ms1 = "map (deparallel_update_mp_arguments W tp) Ms"
  have g1: "group_state W tp M (slicing_plan W tp M) ?Ms1"
    unfolding group_state_def using len expand_after_parallelize[OF ready par] by simp
  obtain Ms2 where s2: "all_gather_step embedding_contribution embedding_continue ?Ms1 = Inr Ms2"
      and g2: "group_state W tp M (concat (map (module_entries W tp M) [0..<?n])) Ms2"
    using embedding_step[OF ready g1] by blast
  obtain Ms3 where s3: "deparallelize_modules_all tp [0..<?n] Ms2 = Inr Ms3"
      and g3: "group_state W tp M [] Ms3"
    using deparallelize_modules_all_ok[OF ready _ g2] by blast
  have last: "\<And>r cur. r < W \<Longrightarrow> rank_state W r tp M [] cur \<Longrightarrow>
                \<exists>s'. Inr (update_module 0 (\<lambda>m. m\<lparr>mpu_attr := Some MpuNone\<rparr>) cur) = Inr s'
                     \<and> rank_state W r tp M [] s'"
  proof -
    fix r cur assume rs: "rank_state W r tp M [] cur"
    let ?s = "update_module 0 (\<lambda>m. m\<lparr>mpu_attr := Some MpuNone\<rparr>) cur"
    have kp: "keeps cur ?s" by (rule keeps_update_module) simp_all
    have sh: "sharded_by W r M [] ?s"
      by (rule sharded_by_same[OF rank_state_sharded[OF rs]]) simp
    show "\<exists>s'. Inr ?s = Inr s' \<and> rank_state W r tp M [] s'"
      using rank_state_keeps[OF rs kp sh] by blast
  qed
  obtain Ms4 where s4: "local_step (\<lambda>M. Inr (update_module 0 (\<lambda>m. m\<lparr>mpu_attr := Some MpuNone\<rparr>) M)) Ms3
                          = Inr Ms4"
      and g4: "group_state W tp M [] Ms4"
    using local_group[OF g3, of "\<lambda>M. Inr (update_module 0 (\<lambda>m. m\<lparr>mpu_attr := Some MpuNone\<rparr>) M)"] last
    by blast
  have "deparallelize_all W tp Ms = Inr Ms4"
    unfolding deparallelize_all_def using len all hl s2 s3 s4 by (simp add: then_step_def)
  then show ?thesis using g4 by blast
qed

subsection \<open>The round trip\<close>

text \<open>
  C1 (as amended). For a world size \<open>W \<ge> 1\<close>, a mapping and a model that are ready for
  the round trip (the model has the embedding accessor, no parameter is sliced twice,
  every sliced dimension is a multiple of fusion degree times \<open>W\<close>, a fused tensor is
  sliced along its last dimension, the rescale list names each integer once and none
  the engines write, and every rescaled integer is a multiple of \<open>W\<close>): parallelize
  succeeds on every rank, deparallelize, run by all ranks on what parallelize left,
  succeeds, and on every rank the tensor of every parameter and buffer is the one before
  parallelize, every module refers to the same weight and bias, and every integer
  attribute that is rescaled or that the engines do not write has its old value.
\<close>

theorem parallelize_then_deparallelize:
  assumes ready: "round_trip_ready W tp M"
  shows "(\<forall>r<W. fst (parallelize W r tp M) = None) \<and>
         (\<exists>Ms'. deparallelize_all W tp (map (\<lambda>r. snd (parallelize W r tp M)) [0..<W]) = Inr Ms'
                \<and> length Ms' = W
                \<and> (\<forall>r<W. (\<forall>p. data (parameters (Ms' ! r) p) = data (parameters M p))
                       \<and> (\<forall>j<length (named_modules M).
                             weight (module_at (Ms' ! r) j) = weight (module_at M j)
                             \<and> bias (module_at (Ms' ! r) j) = bias (module_at M j)
                             \<and> (\<forall>a. a \<in> set (update_attrs tp) \<or> a \<notin> set engine_attributes \<longrightarrow>
                                   attrs (module_at (Ms' ! r) j) a = attrs (module_at M j) a))))"
proof -
  let ?Ms = "map (\<lambda>r. snd (parallelize W r tp M)) [0..<W]"
  have par: "\<And>r. r < W \<Longrightarrow> fst (parallelize W r tp M) = None
                        \<and> parallelized W r tp M (snd (parallelize W r tp M))"
  proof -
    fix r assume "r < W"
    then obtain cur where "parallelize W r tp M = (None, cur)" "parallelized W r tp M cur"
      using parallelize_ok[OF ready] by blast
    then show "fst (parallelize W r tp M) = None
                 \<and> parallelized W r tp M (snd (parallelize W r tp M))" by simp
  qed
  have a: "\<forall>r<W. fst (parallelize W r tp M) = None" using par by simp
  have len: "length ?Ms = W" by simp
  have p: "\<And>r. r < W \<Longrightarrow> parallelized W r tp M (?Ms ! r)" using par by simp
  obtain Ms' where d: "deparallelize_all W tp ?Ms = Inr Ms'" and g: "group_state W tp M [] Ms'"
    using deparallelize_all_ok[OF ready len p] by blast
  have ne: "\<And>a. a \<in> set (update_attrs tp) \<Longrightarrow> a \<notin> set engine_attributes"
    using ready by (simp add: round_trip_ready_def list_all_iff)
  have b: "\<forall>r<W. (\<forall>p. data (parameters (Ms' ! r) p) = data (parameters M p))
                       \<and> (\<forall>j<length (named_modules M).
                             weight (module_at (Ms' ! r) j) = weight (module_at M j)
                             \<and> bias (module_at (Ms' ! r) j) = bias (module_at M j)
                             \<and> (\<forall>a. a \<in> set (update_attrs tp) \<or> a \<notin> set engine_attributes \<longrightarrow>
                                   attrs (module_at (Ms' ! r) j) a = attrs (module_at M j) a))"
  proof (intro allI impI)
    fix r assume r: "r < W"
    have rs: "rank_state W r tp M [] (Ms' ! r)" by (rule group_state_nth[OF g r])
    have sf: "same_frame M (Ms' ! r)" using rs by (simp add: rank_state_def)
    have dt: "\<forall>p. data (parameters (Ms' ! r) p) = data (parameters M p)"
      using rank_state_sharded[OF rs] by (simp add: sharded_by_def)
    have at: "\<forall>j<length (named_modules M). \<forall>a. a \<notin> set engine_attributes \<longrightarrow>
                attrs (module_at (Ms' ! r) j) a = attrs (module_at M j) a"
      using rs by (simp add: rank_state_def)
    show "(\<forall>p. data (parameters (Ms' ! r) p) = data (parameters M p))
                       \<and> (\<forall>j<length (named_modules M).
                             weight (module_at (Ms' ! r) j) = weight (module_at M j)
                             \<and> bias (module_at (Ms' ! r) j) = bias (module_at M j)
                             \<and> (\<forall>a. a \<in> set (update_attrs tp) \<or> a \<notin> set engine_attributes \<longrightarrow>
                                   attrs (module_at (Ms' ! r) j) a = attrs (module_at M j) a))"
      using dt sf at ne by (auto simp: same_frame_def)
  qed
  have l: "length Ms' = W" by (rule group_state_length[OF g])
  show ?thesis using a d l b by blast
qed

theorem parallelize_then_deparallelize_witness:
  "round_trip_ready 2 block_mapping (block_model 4) \<and>
   fst (parallelize 2 0 block_mapping (block_model 4)) = None \<and>
   fst (parallelize 2 1 block_mapping (block_model 4)) = None \<and>
   (\<exists>Ms'. deparallelize_all 2 block_mapping
            (map (\<lambda>r. snd (parallelize 2 r block_mapping (block_model 4))) [0..<2]) = Inr Ms'
          \<and> length Ms' = 2
          \<and> (\<forall>r<2. (\<forall>p. data (parameters (Ms' ! r) p) = data (parameters (block_model 4) p))
                 \<and> (\<forall>j<length (named_modules (block_model 4)).
                       weight (module_at (Ms' ! r) j) = weight (module_at (block_model 4) j)
                       \<and> bias (module_at (Ms' ! r) j) = bias (module_at (block_model 4) j)
                       \<and> (\<forall>a. a \<in> set (update_attrs block_mapping) \<or> a \<notin> set engine_attributes \<longrightarrow>
                             attrs (module_at (Ms' ! r) j) a = attrs (module_at (block_model 4) j) a))))"
proof -
  have h: "round_trip_ready 2 block_mapping (block_model 4)" by code_simp
  show ?thesis
    using h parallelize_then_deparallelize[OF h] by simp
qed

text \<open>
  The claim as stated fails: a model with 3 heads at a world size of 2. Both ranks
  parallelize, the group deparallelizes, and \<open>num_heads\<close> comes back as 2 on both ranks
  (3 // 2 = 1, 1 * 2 = 2).
\<close>

theorem parallelize_then_deparallelize_counterexample:
  "fst (parallelize 2 0 example_mapping (embedding_only_model 3)) = None \<and>
   fst (parallelize 2 1 example_mapping (embedding_only_model 3)) = None \<and>
   attrs (module_at (embedding_only_model 3) 0) ''num_heads'' = Some 3 \<and>
   (case deparallelize_all 2 example_mapping
           [snd (parallelize 2 0 example_mapping (embedding_only_model 3)),
            snd (parallelize 2 1 example_mapping (embedding_only_model 3))] of
      Inl e \<Rightarrow> None
    | Inr Ms' \<Rightarrow> Some (map (\<lambda>M'. attrs (module_at M' 0) ''num_heads'') Ms'))
     = Some [Some 2, Some 2]"
  by code_simp

lemma others_kept_refl [simp]: "others_kept i M M"
  by (simp add: others_kept_def)











lemma tie_module_names [simp]:
  "fst (named_modules (tie_module tp p i M) ! j) = fst (named_modules M ! j)"
  using tie_module_cases[of tp p i M] by auto







end
